theory Spec2Isabelle
  imports Main "HOL-Library.Word"
begin

unbundle bit_operations_syntax

section \<open>Constants of xmalloc.c\<close>

text \<open>
  The allocator is written for an LP64 target: \<open>size_t\<close>, \<open>uint64_t\<close> and pointers are
  64-bit words, \<open>uint32_t\<close>, \<open>uint16_t\<close> and \<open>uint8_t\<close> are 32-, 16- and 8-bit words.
  Table entries and preprocessor constants are small literals and are kept as natural
  numbers; they are converted to the word type of the expression they are used in.
\<close>

type_synonym addr = "64 word"
type_synonym size_t = "64 word"

abbreviation BUCKET_NUM :: nat where "BUCKET_NUM \<equiv> 21"
abbreviation BUCKET_MIN :: nat where "BUCKET_MIN \<equiv> 8"
abbreviation BUCKET_MAX :: nat where "BUCKET_MAX \<equiv> 8192"
abbreviation ARENA_NUM :: nat where "ARENA_NUM \<equiv> 8"
abbreviation SMALL_PAGE :: nat where "SMALL_PAGE \<equiv> 4096"
abbreviation ALLOC_CHUNK :: nat where "ALLOC_CHUNK \<equiv> 2097152"
abbreviation BITMAP_LONGS :: nat where "BITMAP_LONGS \<equiv> 2497"

abbreviation c_Non_Bucket_Flag :: "8 word" where "c_Non_Bucket_Flag \<equiv> 0xFF"
abbreviation c_Non_Bucket_Metadata_Size :: nat where "c_Non_Bucket_Metadata_Size \<equiv> 9"
abbreviation c_Bucket_Metadata_Size :: nat where "c_Bucket_Metadata_Size \<equiv> 5"
abbreviation c_Header_Pages_Needed :: nat where "c_Header_Pages_Needed \<equiv> 5"
abbreviation c_64_MSB_High :: "64 word" where "c_64_MSB_High \<equiv> 0x8000000000000000"
abbreviation c_64_All_High :: "64 word" where "c_64_All_High \<equiv> 0xFFFFFFFFFFFFFFFF"

definition c_Bucket_Sizes :: "nat list" where
  "c_Bucket_Sizes = [8, 12, 16, 24, 32, 48, 64, 96, 128, 192, 256, 384, 512, 768,
                     1024, 1536, 2048, 3072, 4096, 6144, 8192]"

definition c_MMAP_Chunks :: "nat list" where
  "c_MMAP_Chunks = [1, 1, 1, 1, 2, 2, 2, 2, 4, 4, 4, 4, 8, 8, 8, 8, 16, 16, 16, 16, 32]"

text \<open>
  \<open>sizeof(page_header)\<close> under the LP64 layout: the size byte at offset 0, the next
  pointer at offset 8, \<open>last_offset\<close> at offset 16 and the 2497 bitmap words from offset 24,
  that is \<open>24 + 2497 * 8\<close> bytes.
\<close>

abbreviation sizeof_page_header :: nat where "sizeof_page_header \<equiv> 20000"

section \<open>Data model\<close>

record page_header =
  size_byte :: "8 word"
  next_page :: addr
  last_offset :: "32 word"
  bitmap :: "64 word list"

datatype error =
    Assert_failed
  | Mmap_failed
  | Madvise_error
  | Munmap_error addr
  | Arena_flag_error addr "8 word"
  | Realloc_flag_error addr "8 word"
  | Out_of_bounds
  | Invalid_access
  | Diverges
  | Out_of_fuel

text \<open>
  The process state. Page headers are kept as records in a store indexed by the chunk's
  base address; everything behind a header (slot prefixes, payloads) and the large
  mappings are bytes of \<open>mem\<close>. \<open>mappings\<close>, \<open>brk\<close> and \<open>as_limit\<close> belong to the
  operating system: the live mappings as (base, length), the next address it hands out and
  the address above which it maps nothing for this process. \<open>busy b a\<close> says that another
  thread holds the mutex of cell (b, a) when this thread tries it.
\<close>

record state =
  mem :: "addr \<Rightarrow> 8 word"
  hdrs :: "addr \<rightharpoonup> page_header"
  mappings :: "(addr \<times> nat) list"
  brk :: addr
  as_limit :: addr
  g_Bucket_Stacks :: "nat \<Rightarrow> nat \<Rightarrow> addr"
  t_Favorite_Arenas :: "nat \<Rightarrow> 8 word"
  busy :: "nat \<Rightarrow> nat \<Rightarrow> bool"

text \<open>
  An operation either returns (\<open>Inr\<close>, with its value and the state it leaves) or ends the
  process (\<open>Inl\<close>, with the reason and the state at that moment): \<open>exit(1)\<close> after a
  diagnostic, a failed \<open>assert\<close>, an access the C program has no right to make, or a loop
  that used up the iterations it was given.
\<close>

type_synonym 'a result = "(error \<times> state) + ('a \<times> state)"

subsection \<open>Little-endian loads and stores\<close>

definition write_u32 :: "(addr \<Rightarrow> 8 word) \<Rightarrow> addr \<Rightarrow> 32 word \<Rightarrow> (addr \<Rightarrow> 8 word)" where
  "write_u32 m a v =
     m(a := ucast v, a + 1 := ucast (drop_bit 8 v),
       a + 2 := ucast (drop_bit 16 v), a + 3 := ucast (drop_bit 24 v))"

definition read_u32 :: "(addr \<Rightarrow> 8 word) \<Rightarrow> addr \<Rightarrow> 32 word" where
  "read_u32 m a =
     ucast (m a) OR push_bit 8 (ucast (m (a + 1))) OR
     push_bit 16 (ucast (m (a + 2))) OR push_bit 24 (ucast (m (a + 3)))"

definition write_u64 :: "(addr \<Rightarrow> 8 word) \<Rightarrow> addr \<Rightarrow> 64 word \<Rightarrow> (addr \<Rightarrow> 8 word)" where
  "write_u64 m a v =
     m(a := ucast v, a + 1 := ucast (drop_bit 8 v),
       a + 2 := ucast (drop_bit 16 v), a + 3 := ucast (drop_bit 24 v),
       a + 4 := ucast (drop_bit 32 v), a + 5 := ucast (drop_bit 40 v),
       a + 6 := ucast (drop_bit 48 v), a + 7 := ucast (drop_bit 56 v))"

definition read_u64 :: "(addr \<Rightarrow> 8 word) \<Rightarrow> addr \<Rightarrow> 64 word" where
  "read_u64 m a =
     ucast (m a) OR push_bit 8 (ucast (m (a + 1))) OR
     push_bit 16 (ucast (m (a + 2))) OR push_bit 24 (ucast (m (a + 3))) OR
     push_bit 32 (ucast (m (a + 4))) OR push_bit 40 (ucast (m (a + 5))) OR
     push_bit 48 (ucast (m (a + 6))) OR push_bit 56 (ucast (m (a + 7)))"

text \<open>\<open>memcpy(dst, src, n)\<close>: the \<open>n\<close> bytes from \<open>dst\<close> on receive the bytes from \<open>src\<close> on.\<close>

definition memcpy :: "(addr \<Rightarrow> 8 word) \<Rightarrow> addr \<Rightarrow> addr \<Rightarrow> size_t \<Rightarrow> (addr \<Rightarrow> 8 word)" where
  "memcpy m dst src n = (\<lambda>a. if a - dst < n then m (src + (a - dst)) else m a)"

subsection \<open>The operating system\<close>

text \<open>
  The three system calls are not code of the repository. They are modelled by the contract
  the allocator relies on: \<open>mmap\<close> either fails with \<open>MAP_FAILED\<close> or reserves a fresh
  zero-filled region that overlaps no earlier one (here: the next page-aligned address
  after everything handed out so far). It fails for a length of zero and for a length whose
  pages do not fit between \<open>brk\<close> and \<open>as_limit\<close>, so no region it returns wraps around the
  address space. \<open>madvise\<close> succeeds on a range inside a live mapping; \<open>munmap\<close> succeeds
  on a page-aligned address with a positive length.
\<close>

abbreviation MAP_FAILED :: addr where "MAP_FAILED \<equiv> - 1"

definition page_round :: "nat \<Rightarrow> nat" where
  "page_round n = ((n + SMALL_PAGE - 1) div SMALL_PAGE) * SMALL_PAGE"

definition os_mmap :: "nat \<Rightarrow> state \<Rightarrow> addr \<times> state" where
  "os_mmap len s =
     (if len = 0 \<or> unat (as_limit s) < unat (brk s) + page_round len then (MAP_FAILED, s)
      else (brk s,
            s\<lparr>mem := (\<lambda>a. if unat (a - brk s) < len then 0 else mem s a),
              mappings := (brk s, len) # mappings s,
              brk := brk s + of_nat (page_round len)\<rparr>))"

definition os_madvise :: "state \<Rightarrow> addr \<Rightarrow> nat \<Rightarrow> bool" where
  "os_madvise s a len =
     (\<not> list_ex (\<lambda>(b, l). unat (a - b) + len \<le> l) (mappings s))"

definition os_munmap :: "state \<Rightarrow> addr \<Rightarrow> nat \<Rightarrow> state option" where
  "os_munmap s a len =
     (if unat a mod SMALL_PAGE = 0 \<and> 0 < len
      then Some (s\<lparr>mappings := filter (\<lambda>(b, l). b \<noteq> a) (mappings s)\<rparr>)
      else None)"

section \<open>Encoded size functions\<close>

text \<open>\<open>while (powertwo--) size_p *= 2\<close>, on a \<open>uint8_t\<close> counter and a \<open>size_t\<close> product.\<close>

function parse_loop :: "8 word \<Rightarrow> size_t \<Rightarrow> size_t" where
  "parse_loop powertwo size_p =
     (if powertwo = 0 then size_p else parse_loop (powertwo - 1) (size_p * 2))"
  by pat_completeness auto
termination
  by (relation "measure (\<lambda>(p, s). unat p)") (auto simp: measure_unat)

declare parse_loop.simps [simp del]

definition parse_header_size :: "8 word \<Rightarrow> size_t" where
  "parse_header_size sz =
     (let intermediate = drop_bit 7 sz;
          powertwo = sz AND 0x7F;
          size_p = parse_loop powertwo 1
      in size_p + (ucast intermediate * size_p) div 2)"

text \<open>
  \<open>while (size != 1) { powertwo++; size /= 2; }\<close>. From 0 the loop never reaches 1 and does
  not return: that is the value \<open>None\<close>.
\<close>

function gen_loop :: "size_t \<Rightarrow> 8 word \<Rightarrow> 8 word option" where
  "gen_loop sz powertwo =
     (if sz = 1 then Some powertwo
      else if sz = 0 then None
      else gen_loop (sz div 2) (powertwo + 1))"
  by pat_completeness auto
termination
proof (relation "measure (\<lambda>(s, p). unat s)")
  show "wf (measure (\<lambda>(s :: size_t, p :: 8 word). unat s))"
    by simp
next
  fix sz :: size_t and powertwo :: "8 word"
  assume "sz \<noteq> 1" and "sz \<noteq> 0"
  then have "0 < unat sz"
    by (simp add: unat_gt_0)
  then have "unat sz div 2 < unat sz"
    by simp
  then show "((sz div 2, powertwo + 1), (sz, powertwo)) \<in> measure (\<lambda>(s, p). unat s)"
    by (simp add: unat_div)
qed

declare gen_loop.simps [simp del]

definition gen_header_size :: "size_t \<Rightarrow> error + 8 word" where
  "gen_header_size sz =
     (if \<not> (of_nat BUCKET_MIN \<le> sz) then Inl Assert_failed
      else let intermediate = (if sz mod 3 = 0 then 0x80 else 0x00) in
        case gen_loop sz 0 of
          None \<Rightarrow> Inl Diverges
        | Some powertwo \<Rightarrow> Inr (intermediate OR powertwo))"

section \<open>Mapping functions\<close>

definition zero_header :: page_header where
  "zero_header = \<lparr>size_byte = 0, next_page = 0, last_offset = 0,
                  bitmap = replicate BITMAP_LONGS 0\<rparr>"

text \<open>
  \<open>madvise\<close> returns nonzero on failure, so \<open>os_madvise\<close> is true when it fails.
  \<open>mmap_bucket\<close>: the fresh mapping reads as zero, so the header at its base is the zero
  header until the encoded size is written. Both mapping functions test the result of
  \<open>mmap\<close> against \<open>NULL\<close> only: after \<open>MAP_FAILED\<close> the store through the pointer is an
  access to memory the process does not have.
\<close>

definition mmap_bucket :: "state \<Rightarrow> nat \<Rightarrow> addr result" where
  "mmap_bucket s bucket_i =
     (if \<not> bucket_i < BUCKET_NUM then Inl (Assert_failed, s)
      else let mmap_size = c_MMAP_Chunks ! bucket_i * ALLOC_CHUNK;
               (new_bucket, s1) = os_mmap mmap_size s
        in if new_bucket = 0 then Inl (Mmap_failed, s1)
           else if os_madvise s1 (new_bucket + of_nat (SMALL_PAGE * c_Header_Pages_Needed))
                     (mmap_size - SMALL_PAGE * c_Header_Pages_Needed)
             then Inl (Madvise_error, s1)
           else if new_bucket = MAP_FAILED then Inl (Invalid_access, s1)
           else case gen_header_size (of_nat (c_Bucket_Sizes ! bucket_i)) of
               Inl e \<Rightarrow> Inl (e, s1)
             | Inr enc \<Rightarrow>
                 Inr (new_bucket,
                      s1\<lparr>hdrs := (hdrs s1)(new_bucket \<mapsto> zero_header\<lparr>size_byte := enc\<rparr>)\<rparr>))"

definition mmap_non_bucket :: "state \<Rightarrow> size_t \<Rightarrow> addr result" where
  "mmap_non_bucket s sz =
     (if \<not> of_nat BUCKET_MAX < sz then Inl (Assert_failed, s)
      else let size1 = sz + of_nat c_Non_Bucket_Metadata_Size;
               size2 = (size1 div of_nat SMALL_PAGE +
                        (if size1 mod of_nat SMALL_PAGE = 0 then 0 else 1)) * of_nat SMALL_PAGE;
               (ptr, s1) = os_mmap (unat size2) s
        in if ptr = 0 then Inl (Mmap_failed, s1)
           else if ptr = MAP_FAILED then Inl (Invalid_access, s1)
           else let m1 = write_u64 (mem s1) ptr size2;
                    ptr1 = ptr + 8;
                    m2 = m1(ptr1 := c_Non_Bucket_Flag);
                    ptr2 = ptr1 + 1
             in Inr (ptr2, s1\<lparr>mem := m2\<rparr>))"

section \<open>Push and pop on the bucket stacks\<close>

text \<open>
  \<open>bitmap_size\<close> of \<open>pop_bucket\<close>: the number of slots of a chunk of the class, and the
  stride of one slot (payload plus the five bytes of metadata), a \<open>uint32_t\<close> sum.
\<close>

definition bitmap_size_of :: "nat \<Rightarrow> 32 word" where
  "bitmap_size_of bucket_i =
     of_nat ((c_MMAP_Chunks ! bucket_i * ALLOC_CHUNK - sizeof_page_header)
             div (c_Bucket_Sizes ! bucket_i + c_Bucket_Metadata_Size))"

definition stride_of :: "nat \<Rightarrow> 32 word" where
  "stride_of bucket_i = of_nat (c_Bucket_Sizes ! bucket_i + c_Bucket_Metadata_Size)"

text \<open>
  The inner loop of \<open>pop_bucket\<close> on one header, from the cursor \<open>offset\<close>:
  \<open>Inr (Some offset)\<close> is the break with \<open>bucket_found\<close> set, \<open>Inr None\<close> the exit at
  \<open>offset == header->last_offset\<close>. \<open>bitmap_i\<close> is a \<open>uint16_t\<close>, \<open>bitmap_shift\<close> a
  \<open>uint8_t\<close>. A read of \<open>bitmap[bitmap_i]\<close> behind the array is \<open>Out_of_bounds\<close>. The loop
  has no bound of its own; the first argument counts the iterations still allowed.
\<close>

fun scan_slots :: "nat \<Rightarrow> page_header \<Rightarrow> 32 word \<Rightarrow> 32 word \<Rightarrow> error + 32 word option" where
  "scan_slots 0 h bitmap_size offset = Inl Out_of_fuel"
| "scan_slots (Suc n) h bitmap_size offset =
     (if offset = last_offset h then Inr None
      else let bitmap_i = (ucast (offset div 64) :: 16 word);
               bitmap_shift = (ucast (offset mod 64) :: 8 word)
        in if BITMAP_LONGS \<le> unat bitmap_i then Inl Out_of_bounds
           else if bitmap_shift = 0 \<and> bitmap h ! unat bitmap_i = c_64_All_High
             then scan_slots n h bitmap_size (offset + 64)
           else if bitmap h ! unat bitmap_i AND drop_bit (unat bitmap_shift) c_64_MSB_High = 0
             then Inr (Some offset)
           else scan_slots n h bitmap_size ((offset + 1) mod bitmap_size))"

text \<open>
  The outer loop: walk the chunk list from \<open>header\<close> until a slot is found or the list
  ends. \<open>Inr None\<close> is the exit with \<open>header == NULL\<close>.
\<close>

fun walk_headers ::
  "nat \<Rightarrow> nat \<Rightarrow> state \<Rightarrow> addr \<Rightarrow> 32 word \<Rightarrow> error + (addr \<times> 32 word) option" where
  "walk_headers 0 fuel s header bitmap_size = Inl Out_of_fuel"
| "walk_headers (Suc n) fuel s header bitmap_size =
     (if header = 0 then Inr None
      else case hdrs s header of
          None \<Rightarrow> Inl Invalid_access
        | Some h \<Rightarrow>
            (case scan_slots fuel h bitmap_size ((last_offset h + 1) mod bitmap_size) of
               Inl e \<Rightarrow> Inl e
             | Inr (Some offset) \<Rightarrow> Inr (Some (header, offset))
             | Inr None \<Rightarrow> walk_headers n fuel s (next_page h) bitmap_size))"

text \<open>
  \<open>pthread_mutex_trylock\<close> on the favourite arena; when the mutex is held the thread moves
  to the next arena and waits for that one.
\<close>

definition lock_favorite :: "state \<Rightarrow> nat \<Rightarrow> state" where
  "lock_favorite s bucket_i =
     (if busy s bucket_i (unat (t_Favorite_Arenas s bucket_i))
      then s\<lparr>t_Favorite_Arenas := (t_Favorite_Arenas s)
                (bucket_i := of_nat ((unat (t_Favorite_Arenas s bucket_i) + 1) mod ARENA_NUM))\<rparr>
      else s)"

text \<open>
  The tail of \<open>pop_bucket\<close> from "modify the header bitmap" on: record the cursor, set the
  bit, write the slot's self offset and arena byte, return the payload pointer.
\<close>

definition claim_slot ::
  "state \<Rightarrow> nat \<Rightarrow> addr \<Rightarrow> 32 word \<Rightarrow> 16 word \<Rightarrow> 8 word \<Rightarrow> addr result" where
  "claim_slot s bucket_i header offset bitmap_i bitmap_shift =
     (case hdrs s header of
        None \<Rightarrow> Inl (Invalid_access, s)
      | Some h \<Rightarrow>
          if BITMAP_LONGS \<le> unat bitmap_i then Inl (Out_of_bounds, s)
          else let h1 = h\<lparr>last_offset := offset\<rparr>;
                   h2 = h1\<lparr>bitmap := (bitmap h1)[unat bitmap_i :=
                           bitmap h1 ! unat bitmap_i OR
                           drop_bit (unat bitmap_shift) c_64_MSB_High]\<rparr>;
                   ptr = header + of_nat sizeof_page_header + ucast (offset * stride_of bucket_i);
                   m1 = write_u32 (mem s) ptr (ucast (ptr - header));
                   ptr1 = ptr + 4;
                   m2 = m1(ptr1 := t_Favorite_Arenas s bucket_i);
                   ptr2 = ptr1 + 1
            in Inr (ptr2, s\<lparr>hdrs := (hdrs s)(header \<mapsto> h2), mem := m2\<rparr>))"

definition pop_bucket :: "nat \<Rightarrow> state \<Rightarrow> nat \<Rightarrow> addr result" where
  "pop_bucket fuel s bucket_i =
     (if \<not> bucket_i < BUCKET_NUM then Inl (Out_of_bounds, s)
      else let bitmap_size = bitmap_size_of bucket_i
        in if \<not> unat bitmap_size \<le> BITMAP_LONGS * 64 then Inl (Assert_failed, s)
           else let s1 = lock_favorite s bucket_i;
                    arena = unat (t_Favorite_Arenas s1 bucket_i)
             in case walk_headers fuel fuel s1 (g_Bucket_Stacks s1 bucket_i arena) bitmap_size of
                  Inl e \<Rightarrow> Inl (e, s1)
                | Inr (Some (header, offset)) \<Rightarrow>
                    claim_slot s1 bucket_i header offset
                      (ucast (offset div 64)) (ucast (offset mod 64))
                | Inr None \<Rightarrow>
                    (case mmap_bucket s1 bucket_i of
                       Inl e \<Rightarrow> Inl e
                     | Inr (header, s2) \<Rightarrow>
                         (case hdrs s2 header of
                            None \<Rightarrow> Inl (Invalid_access, s2)
                          | Some h \<Rightarrow>
                              let s3 = s2\<lparr>hdrs := (hdrs s2)(header \<mapsto>
                                           h\<lparr>next_page := g_Bucket_Stacks s2 bucket_i arena\<rparr>),
                                         g_Bucket_Stacks := (g_Bucket_Stacks s2)
                                           (bucket_i := (g_Bucket_Stacks s2 bucket_i)
                                              (arena := header))\<rparr>
                              in claim_slot s3 bucket_i header 0 0 0)))"

text \<open>
  \<open>push_bucket\<close>. The offset is the \<open>uint32_t\<close> cast of
  \<open>addr - header + sizeof(page_header)\<close>, divided by the stride. A write to
  \<open>bitmap[bitmap_i]\<close> behind the array is \<open>Out_of_bounds\<close>.
\<close>

definition push_offset :: "nat \<Rightarrow> addr \<Rightarrow> addr \<Rightarrow> 32 word" where
  "push_offset bucket_i header address =
     (ucast (address - header + of_nat sizeof_page_header) :: 32 word) div stride_of bucket_i"

definition push_bucket ::
  "state \<Rightarrow> nat \<Rightarrow> nat \<Rightarrow> addr \<Rightarrow> addr \<Rightarrow> (error \<times> state) + state" where
  "push_bucket s bucket_i arena_i header address =
     (if \<not> bucket_i < BUCKET_NUM then Inl (Assert_failed, s)
      else let offset = push_offset bucket_i header address;
               bitmap_i = (ucast (offset div 64) :: 16 word);
               bitmap_shift = (ucast (offset mod 64) :: 8 word)
        in case hdrs s header of
             None \<Rightarrow> Inl (Invalid_access, s)
           | Some h \<Rightarrow>
               if BITMAP_LONGS \<le> unat bitmap_i then Inl (Out_of_bounds, s)
               else Inr (s\<lparr>hdrs := (hdrs s)(header \<mapsto>
                           h\<lparr>bitmap := (bitmap h)[unat bitmap_i :=
                               bitmap h ! unat bitmap_i AND
                               NOT (drop_bit (unat bitmap_shift) c_64_MSB_High)]\<rparr>)\<rparr>))"

section \<open>The three entry points\<close>

text \<open>The class search of \<open>xmalloc\<close>.\<close>

function find_bucket :: "size_t \<Rightarrow> nat \<Rightarrow> nat" where
  "find_bucket bytes bucket_i =
     (if of_nat (c_Bucket_Sizes ! bucket_i) < bytes \<and> bucket_i < BUCKET_NUM - 1
      then find_bucket bytes (bucket_i + 1) else bucket_i)"
  by pat_completeness auto
termination
  by (relation "measure (\<lambda>(b, i). BUCKET_NUM - 1 - i)") auto

declare find_bucket.simps [simp del]

definition xmalloc :: "nat \<Rightarrow> state \<Rightarrow> size_t \<Rightarrow> addr result" where
  "xmalloc fuel s bytes =
     (if of_nat BUCKET_MAX < bytes then mmap_non_bucket s bytes
      else let bucket_i = find_bucket bytes 0
        in if bytes \<le> of_nat (c_Bucket_Sizes ! bucket_i) \<and>
              (if bucket_i = 0 then True else of_nat (c_Bucket_Sizes ! (bucket_i - 1)) < bytes)
           then pop_bucket fuel s bucket_i
           else Inl (Assert_failed, s))"

text \<open>The class search of \<open>xfree\<close>, by the decoded size.\<close>

function find_size :: "size_t \<Rightarrow> nat \<Rightarrow> nat" where
  "find_size bucket_size bucket_i =
     (if bucket_i < BUCKET_NUM \<and> of_nat (c_Bucket_Sizes ! bucket_i) \<noteq> bucket_size
      then find_size bucket_size (bucket_i + 1) else bucket_i)"
  by pat_completeness auto
termination
  by (relation "measure (\<lambda>(b, i). BUCKET_NUM - i)") auto

declare find_size.simps [simp del]

definition xfree :: "state \<Rightarrow> addr \<Rightarrow> (error \<times> state) + state" where
  "xfree s ptr =
     (if ptr = 0 then Inr s
      else let flag = mem s (ptr - 1)
        in if flag = c_Non_Bucket_Flag
           then let ptr1 = ptr - of_nat c_Non_Bucket_Metadata_Size
             in (case os_munmap s ptr1 (unat (read_u64 (mem s) ptr1)) of
                   None \<Rightarrow> Inl (Munmap_error ptr1, s)
                 | Some s1 \<Rightarrow> Inr s1)
           else if flag < of_nat ARENA_NUM
           then let ptr1 = ptr - of_nat c_Bucket_Metadata_Size;
                    header = ptr1 - ucast (read_u32 (mem s) ptr1)
             in (case hdrs s header of
                   None \<Rightarrow> Inl (Invalid_access, s)
                 | Some h \<Rightarrow>
                     let bucket_size = parse_header_size (size_byte h);
                         bucket_i = find_size bucket_size 0
                     in if bucket_i < BUCKET_NUM
                        then push_bucket s bucket_i (unat flag) header ptr1
                        else Inl (Assert_failed, s))
           else Inl (Arena_flag_error ptr flag, s))"

text \<open>
  The four statements both reallocating branches of \<open>xrealloc\<close> share: allocate, copy the
  smaller of the two sizes, free the old pointer, return the new one.
\<close>

definition realloc_move ::
  "nat \<Rightarrow> state \<Rightarrow> addr \<Rightarrow> size_t \<Rightarrow> size_t \<Rightarrow> addr result" where
  "realloc_move fuel s prev bytes prev_bytes =
     (case xmalloc fuel s bytes of
        Inl e \<Rightarrow> Inl e
      | Inr (ptr, s1) \<Rightarrow>
          let s2 = s1\<lparr>mem := memcpy (mem s1) ptr prev
                              (if bytes < prev_bytes then bytes else prev_bytes)\<rparr>
          in (case xfree s2 prev of
                Inl e \<Rightarrow> Inl e
              | Inr s3 \<Rightarrow> Inr (ptr, s3)))"

definition xrealloc :: "nat \<Rightarrow> state \<Rightarrow> addr \<Rightarrow> size_t \<Rightarrow> addr result" where
  "xrealloc fuel s prev bytes =
     (if prev = 0 then Inr (prev, s)
      else let flag = mem s (prev - 1)
        in if flag = c_Non_Bucket_Flag
           then let ptr = prev - of_nat c_Non_Bucket_Metadata_Size;
                    prev_bytes = read_u64 (mem s) ptr
             in if prev_bytes < bytes \<or> bytes < prev_bytes * 3 div 4
                then realloc_move fuel s prev bytes prev_bytes
                else Inr (prev, s)
           else if flag < of_nat ARENA_NUM
           then let ptr = prev - of_nat c_Bucket_Metadata_Size;
                    header = ptr - ucast (read_u32 (mem s) ptr)
             in (case hdrs s header of
                   None \<Rightarrow> Inl (Invalid_access, s)
                 | Some h \<Rightarrow>
                     let prev_bytes = parse_header_size (size_byte h)
                     in if of_nat BUCKET_MAX < bytes \<or> prev_bytes < bytes \<or>
                           (bytes < prev_bytes * 2 div 3 \<and> prev_bytes \<noteq> of_nat BUCKET_MIN)
                        then realloc_move fuel s prev bytes prev_bytes
                        else Inr (prev, s))
           else Inl (Realloc_flag_error prev flag, s))"

section \<open>Start of the process\<close>

text \<open>
  Static storage starts as zero: no chunk on any stack, every favourite arena 0. The
  state before the constructor runs, with the first address the system will hand out; the
  address space of a process ends at \<open>2 ^ 47\<close>.
\<close>

definition boot :: "addr \<Rightarrow> state" where
  "boot first = \<lparr>mem = (\<lambda>a. 0), hdrs = Map.empty, mappings = [], brk = first,
                 as_limit = 0x800000000000, g_Bucket_Stacks = (\<lambda>b a. 0), t_Favorite_Arenas = (\<lambda>b. 0),
                 busy = (\<lambda>b a. False)\<rparr>"

text \<open>The body of the inner loop of \<open>initialize_mutexes\<close>: map a chunk and push it.\<close>

definition init_cell ::
  "nat \<Rightarrow> nat \<Rightarrow> (error \<times> state) + state \<Rightarrow> (error \<times> state) + state" where
  "init_cell bucket_index arena_index r =
     (case r of
        Inl e \<Rightarrow> Inl e
      | Inr s \<Rightarrow>
          (case mmap_bucket s bucket_index of
             Inl e \<Rightarrow> Inl e
           | Inr (header, s1) \<Rightarrow>
               (case hdrs s1 header of
                  None \<Rightarrow> Inl (Invalid_access, s1)
                | Some h \<Rightarrow>
                    Inr (s1\<lparr>hdrs := (hdrs s1)(header \<mapsto>
                               h\<lparr>next_page := g_Bucket_Stacks s1 bucket_index arena_index\<rparr>),
                            g_Bucket_Stacks := (g_Bucket_Stacks s1)
                              (bucket_index := (g_Bucket_Stacks s1 bucket_index)
                                 (arena_index := header))\<rparr>))))"

definition initialize_mutexes :: "state \<Rightarrow> (error \<times> state) + state" where
  "initialize_mutexes s =
     (if c_Bucket_Sizes ! 0 = BUCKET_MIN \<and> c_Bucket_Sizes ! (BUCKET_NUM - 1) = BUCKET_MAX
      then fold (\<lambda>bucket_index. fold (init_cell bucket_index) [0..<ARENA_NUM])
             [0..<BUCKET_NUM] (Inr s)
      else Inl (Assert_failed, s))"

text \<open>The state in which \<open>main\<close> starts: the constructor has run on the boot state.\<close>

definition start :: "addr \<Rightarrow> state" where
  "start first = (case initialize_mutexes (boot first) of Inr s \<Rightarrow> s | Inl (e, s) \<Rightarrow> s)"

section \<open>Notions used in the statements\<close>

text \<open>The size byte \<open>mmap_bucket\<close> writes into the header of a chunk of class \<open>b\<close>.\<close>

definition class_byte :: "nat \<Rightarrow> 8 word" where
  "class_byte b =
     (case gen_header_size (of_nat (c_Bucket_Sizes ! b)) of Inr enc \<Rightarrow> enc | Inl e \<Rightarrow> 0)"

text \<open>The pointer a call returned (\<open>NULL\<close> if it ended the process) and the state it left.\<close>

definition ret_ptr :: "addr result \<Rightarrow> addr" where
  "ret_ptr r = (case r of Inr (p, s) \<Rightarrow> p | Inl (e, s) \<Rightarrow> 0)"

definition ret_state :: "addr result \<Rightarrow> state" where
  "ret_state r = (case r of Inr (p, s) \<Rightarrow> s | Inl (e, s) \<Rightarrow> s)"

definition freed :: "(error \<times> state) + state \<Rightarrow> state" where
  "freed r = (case r of Inr s \<Rightarrow> s | Inl (e, s) \<Rightarrow> s)"

text \<open>
  The address of the payload of slot \<open>i\<close> in the chunk at \<open>header\<close>, as \<open>pop_bucket\<close>
  computes it, and the index of the slot a payload pointer belongs to, as the
  specification states it: \<open>(p - 5 - header - sizeof(header)) / slot_stride(class)\<close>.
\<close>

definition slot_ptr :: "nat \<Rightarrow> addr \<Rightarrow> 32 word \<Rightarrow> addr" where
  "slot_ptr bucket_i header i =
     header + of_nat sizeof_page_header + ucast (i * stride_of bucket_i) +
     of_nat c_Bucket_Metadata_Size"

definition slot_of :: "nat \<Rightarrow> addr \<Rightarrow> addr \<Rightarrow> 32 word" where
  "slot_of bucket_i header p =
     (ucast (p - of_nat c_Bucket_Metadata_Size - header - of_nat sizeof_page_header) :: 32 word)
       div stride_of bucket_i"

text \<open>The test \<open>pop_bucket\<close> applies to slot \<open>i\<close> of a header: its bit is zero.\<close>

definition slot_free :: "page_header \<Rightarrow> 32 word \<Rightarrow> bool" where
  "slot_free h i =
     (bitmap h ! unat (ucast (i div 64) :: 16 word) AND
        drop_bit (unat (ucast (i mod 64) :: 8 word)) c_64_MSB_High = 0)"


section \<open>Scenarios\<close>

text \<open>
  The runs the statements below are about start in the state the constructor leaves when
  the first mapping is at \<open>0x10000000\<close>. \<open>chunk b\<close> is the chunk of class \<open>b\<close> in arena 0 of
  that state. \<open>alloc_run fuel s n k\<close> is the \<open>k\<close>-th of \<open>k\<close> successive calls
  \<open>xmalloc(n)\<close> from state \<open>s\<close>. \<open>first_claim s c X\<close> is state \<open>s\<close> after slot 1 of the
  chunk \<open>X\<close> of class \<open>c\<close> has been taken from a chunk no slot of which was taken before.
\<close>

definition st0 :: state where
  "st0 = start 0x10000000"

definition chunk :: "nat \<Rightarrow> addr" where
  "chunk b = g_Bucket_Stacks st0 b 0"

definition first_claim :: "state \<Rightarrow> nat \<Rightarrow> addr \<Rightarrow> state" where
  "first_claim s c X =
     s\<lparr>hdrs := (hdrs s)(X \<mapsto> \<lparr>size_byte = class_byte c, next_page = 0, last_offset = 1,
                    bitmap = (replicate BITMAP_LONGS 0)[0 := 0x4000000000000000]\<rparr>),
       mem := (write_u32 (mem s) (slot_ptr c X 1 - 5) (ucast (slot_ptr c X 1 - 5 - X)))
                (slot_ptr c X 1 - 1 := 0)\<rparr>"

fun alloc_run :: "nat \<Rightarrow> state \<Rightarrow> size_t \<Rightarrow> nat \<Rightarrow> addr result" where
  "alloc_run fuel s n 0 = Inr (0, s)"
| "alloc_run fuel s n (Suc k) = xmalloc fuel (ret_state (alloc_run fuel s n k)) n"


section \<open>The bitmap and the run that fills a chunk\<close>

text \<open>
  The statement of \<open>pop_bucket\<close> that sets the bit of slot \<open>i\<close> in a bitmap, the
  statement of \<open>push_bucket\<close> that clears it, and the bit itself: slot \<open>i\<close> is bit
  \<open>63 - i mod 64\<close>, counted from the least significant one, of word \<open>i div 64\<close>.
\<close>

definition set_slot :: "64 word list \<Rightarrow> nat \<Rightarrow> 64 word list" where
  "set_slot bm i = bm[i div 64 := bm ! (i div 64) OR drop_bit (i mod 64) c_64_MSB_High]"

definition clear_slot :: "64 word list \<Rightarrow> nat \<Rightarrow> 64 word list" where
  "clear_slot bm i = bm[i div 64 := bm ! (i div 64) AND NOT (drop_bit (i mod 64) c_64_MSB_High)]"

definition taken :: "64 word list \<Rightarrow> nat \<Rightarrow> bool" where
  "taken bm i = bit (bm ! (i div 64)) (63 - i mod 64)"

text \<open>
  \<open>filled k\<close> is the bitmap of a chunk in which the slots 1 to \<open>k\<close> have been taken one
  after the other, \<open>all_taken\<close> the bitmap after slot 0 has been taken as well, which is
  every slot of a chunk of class 8192. \<open>fill_header\<close> is the header of the chunk of class
  8192 with a given cursor and bitmap.
\<close>

fun filled :: "nat \<Rightarrow> 64 word list" where
  "filled 0 = replicate BITMAP_LONGS 0"
| "filled (Suc k) = set_slot (filled k) (Suc k)"

definition fill_header :: "32 word \<Rightarrow> 64 word list \<Rightarrow> page_header" where
  "fill_header lo bm = \<lparr>size_byte = 13, next_page = 0, last_offset = lo, bitmap = bm\<rparr>"

definition all_taken :: "64 word list" where
  "all_taken = set_slot (filled 8183) 0"

text \<open>
  The run of 8184 calls \<open>xmalloc(8192)\<close> from the start state, the state after the pointer
  returned by the last of them has been freed, and the call \<open>xmalloc(8192)\<close> that follows.
  Four iterations of the scan are enough for each of these calls.
\<close>

definition full_run :: "addr result" where
  "full_run = alloc_run 4 st0 8192 8184"

definition after_free :: state where
  "after_free = freed (xfree (ret_state full_run) (ret_ptr full_run))"

definition second_take :: "addr result" where
  "second_take = xmalloc 4 after_free 8192"

section \<open>Auxiliary facts\<close>

subsection \<open>The class table\<close>

lemma cases21_disj:
  "c < (21::nat) \<Longrightarrow> c = 0 \<or> c = 1 \<or> c = 2 \<or> c = 3 \<or> c = 4 \<or> c = 5 \<or> c = 6 \<or> c = 7 \<or>
     c = 8 \<or> c = 9 \<or> c = 10 \<or> c = 11 \<or> c = 12 \<or> c = 13 \<or> c = 14 \<or> c = 15 \<or> c = 16 \<or>
     c = 17 \<or> c = 18 \<or> c = 19 \<or> c = 20"
  by arith

lemma cases21:
  assumes "c < (21::nat)"
  obtains "c = 0" | "c = 1" | "c = 2" | "c = 3" | "c = 4" | "c = 5" | "c = 6" | "c = 7"
    | "c = 8" | "c = 9" | "c = 10" | "c = 11" | "c = 12" | "c = 13" | "c = 14" | "c = 15"
    | "c = 16" | "c = 17" | "c = 18" | "c = 19" | "c = 20"
  using cases21_disj [OF assms] by blast

lemma gen_class:
  "gen_header_size 8 = Inr 3" "gen_header_size 12 = Inr 0x83"
  "gen_header_size 16 = Inr 4" "gen_header_size 24 = Inr 0x84"
  "gen_header_size 32 = Inr 5" "gen_header_size 48 = Inr 0x85"
  "gen_header_size 64 = Inr 6" "gen_header_size 96 = Inr 0x86"
  "gen_header_size 128 = Inr 7" "gen_header_size 192 = Inr 0x87"
  "gen_header_size 256 = Inr 8" "gen_header_size 384 = Inr 0x88"
  "gen_header_size 512 = Inr 9" "gen_header_size 768 = Inr 0x89"
  "gen_header_size 1024 = Inr 10" "gen_header_size 1536 = Inr 0x8A"
  "gen_header_size 2048 = Inr 11" "gen_header_size 3072 = Inr 0x8B"
  "gen_header_size 4096 = Inr 12" "gen_header_size 6144 = Inr 0x8C"
  "gen_header_size 8192 = Inr 13"
  by (simp_all add: gen_header_size_def gen_loop.simps)

lemma parse_class:
  "parse_header_size 3 = 8" "parse_header_size 0x83 = 12"
  "parse_header_size 4 = 16" "parse_header_size 0x84 = 24"
  "parse_header_size 5 = 32" "parse_header_size 0x85 = 48"
  "parse_header_size 6 = 64" "parse_header_size 0x86 = 96"
  "parse_header_size 7 = 128" "parse_header_size 0x87 = 192"
  "parse_header_size 8 = 256" "parse_header_size 0x88 = 384"
  "parse_header_size 9 = 512" "parse_header_size 0x89 = 768"
  "parse_header_size 10 = 1024" "parse_header_size 0x8A = 1536"
  "parse_header_size 11 = 2048" "parse_header_size 0x8B = 3072"
  "parse_header_size 12 = 4096" "parse_header_size 0x8C = 6144"
  "parse_header_size 13 = 8192"
  by (simp_all add: parse_header_size_def parse_loop.simps)

subsection \<open>The decoder in closed form\<close>

lemma parse_loop_power: "parse_loop p x = x * 2 ^ unat p"
proof (induction p x rule: parse_loop.induct)
  case (1 powertwo size_p)
  show ?case
  proof (cases "powertwo = 0")
    case True
    then show ?thesis by (simp add: parse_loop.simps)
  next
    case False
    then have "unat powertwo = Suc (unat (powertwo - 1))"
      by (simp add: unat_minus_one unat_gt_0)
    with False 1 show ?thesis
      by (subst parse_loop.simps) simp
  qed
qed

lemma top_bit: "drop_bit 7 (b :: 8 word) = (if bit b 7 then 1 else 0)"
proof (rule bit_word_eqI)
  fix n assume "n < LENGTH(8)"
  then have "n < 8" by simp
  then show "bit (drop_bit 7 b) n = bit (if bit b 7 then 1 else 0 :: 8 word) n"
    by (cases "n = 0") (auto simp: bit_simps dest: bit_imp_le_length)
qed

lemma unat_two_power:
  assumes "k < 64" shows "unat (2 ^ k :: 64 word) = 2 ^ k"
proof -
  have "(2 ^ k :: 64 word) = of_nat (2 ^ k)" by simp
  moreover have "(2 :: nat) ^ k < 2 ^ 64"
    using assms by (intro power_strict_increasing) simp_all
  ultimately show ?thesis
    by (simp only: unat_of_nat) simp
qed

lemma half_power:
  assumes "0 < k" "k < 64" shows "(2 ^ k :: 64 word) div 2 = 2 ^ (k - 1)"
proof -
  from assms obtain j where j: "k = Suc j" by (cases k) auto
  have "unat ((2 ^ k :: 64 word) div 2) = unat (2 ^ k :: 64 word) div 2"
    by (simp add: unat_div)
  also have "\<dots> = 2 ^ j"
    using assms by (simp only: unat_two_power) (simp add: j)
  also have "\<dots> = unat (2 ^ (k - 1) :: 64 word)"
    using assms by (simp add: j unat_two_power)
  finally show ?thesis
    by (simp only: word_unat_eq_iff)
qed

lemma decoder_formula:
  assumes "0 < unat (b AND 0x7F)" "unat (b AND 0x7F) < 64"
  shows "parse_header_size b =
    2 ^ unat (b AND 0x7F) + (if bit b 7 then 2 ^ (unat (b AND 0x7F) - 1) else 0)"
  using assms
  by (simp add: parse_header_size_def parse_loop_power top_bit half_power)

subsection \<open>The class search\<close>

lemma find_bucket_inv:
  "i \<le> 20 \<Longrightarrow> (\<forall>j<i. of_nat (c_Bucket_Sizes ! j) < bytes) \<Longrightarrow>
     find_bucket bytes i \<le> 20 \<and>
     (\<forall>j < find_bucket bytes i. of_nat (c_Bucket_Sizes ! j) < bytes) \<and>
     (find_bucket bytes i < 20 \<longrightarrow> bytes \<le> of_nat (c_Bucket_Sizes ! find_bucket bytes i))"
proof (induction bytes i rule: find_bucket.induct)
  case (1 bytes bucket_i)
  show ?case
  proof (cases "of_nat (c_Bucket_Sizes ! bucket_i) < bytes \<and> bucket_i < BUCKET_NUM - 1")
    case True
    then have step: "find_bucket bytes bucket_i = find_bucket bytes (bucket_i + 1)"
      by (subst find_bucket.simps) simp
    have "\<forall>j<bucket_i + 1. of_nat (c_Bucket_Sizes ! j) < bytes"
      using True "1.prems"(2) by (auto simp: less_Suc_eq)
    with "1.IH" [OF True] True show ?thesis
      unfolding step by simp
  next
    case False
    then have stop: "find_bucket bytes bucket_i = bucket_i"
      by (subst find_bucket.simps) auto
    from False "1.prems" show ?thesis
      unfolding stop by (auto simp: not_less)
  qed
qed

lemma find_bucket_class: "c < 21 \<Longrightarrow> find_bucket (of_nat (c_Bucket_Sizes ! c)) 0 = c"
  by (erule cases21; simp add: find_bucket.simps c_Bucket_Sizes_def)

lemma find_bucket_next: "c < 20 \<Longrightarrow> find_bucket (of_nat (c_Bucket_Sizes ! c) + 1) 0 = c + 1"
  by (rule cases21 [of c]; simp add: find_bucket.simps c_Bucket_Sizes_def)

subsection \<open>Loads and stores\<close>

lemma byte_bit: "bit (push_bit k (ucast (ucast (drop_bit k v) :: 8 word)) :: 'a::len word) n
   \<longleftrightarrow> k \<le> n \<and> n < k + 8 \<and> bit (v :: 'a word) n"
  by (auto simp: bit_simps dest: bit_imp_le_length)

lemma byte_bit0: "bit (ucast (ucast v :: 8 word) :: 'a::len word) n
   \<longleftrightarrow> n < 8 \<and> bit (v :: 'a word) n"
  using byte_bit [of 0 v n] by simp

lemma cat4:
  "ucast (ucast v :: 8 word) OR push_bit 8 (ucast (ucast (drop_bit 8 v) :: 8 word)) OR
   push_bit 16 (ucast (ucast (drop_bit 16 v) :: 8 word)) OR
   push_bit 24 (ucast (ucast (drop_bit 24 v) :: 8 word)) = (v :: 32 word)"
  apply (rule bit_word_eqI)
  apply (simp only: bit_or_iff byte_bit byte_bit0)
  apply auto
  done

lemma cat8:
  "ucast (ucast v :: 8 word) OR push_bit 8 (ucast (ucast (drop_bit 8 v) :: 8 word)) OR
   push_bit 16 (ucast (ucast (drop_bit 16 v) :: 8 word)) OR
   push_bit 24 (ucast (ucast (drop_bit 24 v) :: 8 word)) OR
   push_bit 32 (ucast (ucast (drop_bit 32 v) :: 8 word)) OR
   push_bit 40 (ucast (ucast (drop_bit 40 v) :: 8 word)) OR
   push_bit 48 (ucast (ucast (drop_bit 48 v) :: 8 word)) OR
   push_bit 56 (ucast (ucast (drop_bit 56 v) :: 8 word)) = (v :: 64 word)"
  apply (rule bit_word_eqI)
  apply (simp only: bit_or_iff byte_bit byte_bit0)
  apply auto
  done

lemma read_write_u32: "read_u32 (write_u32 m a v) a = v"
  unfolding read_u32_def write_u32_def by (simp add: cat4)

lemma read_write_u64: "read_u64 (write_u64 m a v) a = v"
  unfolding read_u64_def write_u64_def by (simp add: cat8)

lemma read_u64_flag: "read_u64 (m(a + 8 := v)) a = read_u64 m a"
  unfolding read_u64_def by simp

lemma read_u32_flag: "read_u32 (m(a + 4 := v)) a = read_u32 m a"
  unfolding read_u32_def by simp

lemma write_u32_other: "m' = write_u32 m a v \<Longrightarrow> m' (a + 4) = m (a + 4)"
  unfolding write_u32_def by simp

subsection \<open>Rounding to pages\<close>

lemma page_round_alt:
  "page_round n = (n div 4096 + (if n mod 4096 = 0 then 0 else 1)) * 4096"
proof -
  define q r where "q = n div 4096" and "r = n mod 4096"
  have n: "n = 4096 * q + r" and r: "r < 4096"
    by (simp_all add: q_def r_def)
  have "(n + 4095) div 4096 = q + (if r = 0 then 0 else 1)"
    by (rule div_nat_eqI) (use n r in \<open>auto split: if_splits\<close>)
  moreover have "n + 4096 - 1 = n + 4095"
    by simp
  ultimately show ?thesis
    by (simp only: page_round_def q_def r_def)
qed

lemma page_round_bounds: "4096 dvd page_round n \<and> n \<le> page_round n \<and> page_round n < n + 4096"
proof -
  define q r where "q = n div 4096" and "r = n mod 4096"
  have n: "n = 4096 * q + r" and r: "r < 4096"
    by (simp_all add: q_def r_def)
  have p: "page_round n = (q + (if r = 0 then 0 else 1)) * 4096"
    by (simp only: page_round_alt q_def r_def)
  have "4096 dvd page_round n"
    unfolding p by simp
  moreover have "n \<le> page_round n \<and> page_round n < n + 4096"
    unfolding p using n r by (auto split: if_splits)
  ultimately show ?thesis by simp
qed

lemma round_word:
  fixes sz :: size_t
  assumes "sz \<le> 0xFFFFFFFFFFFFEFF7"
  shows "unat (((sz + 9) div 4096 + (if (sz + 9) mod 4096 = 0 then 0 else 1)) * 4096)
           = page_round (unat sz + 9)"
proof -
  let ?n = "unat sz + 9"
  from assms have sz: "unat sz \<le> 18446744073709547511"
    by (simp add: word_le_nat_alt)
  then have n: "unat (sz + 9) = ?n"
    by (simp add: unat_add_lem [THEN iffD1])
  have q: "unat ((sz + 9) div 4096) = ?n div 4096"
    by (simp add: unat_div n)
  have r: "((sz + 9) mod 4096 = 0) = (?n mod 4096 = 0)"
    by (simp add: unat_eq_zero [symmetric] unat_mod n del: unat_eq_zero)
  let ?e = "(if (sz + 9) mod 4096 = 0 then 0 else 1) :: size_t"
  have e: "unat ?e = (if ?n mod 4096 = 0 then 0 else 1)"
    by (simp add: r)
  have d: "?n div 4096 \<le> ?n"
    by (rule div_le_dividend)
  have "unat ((sz + 9) div 4096) + unat ?e < 2 ^ LENGTH(64)"
    unfolding q e using sz d by (auto split: if_splits)
  then have "unat ((sz + 9) div 4096 + ?e) = unat ((sz + 9) div 4096) + unat ?e"
    by (rule unat_add_lem [THEN iffD1])
  then have s: "unat ((sz + 9) div 4096 + ?e) = ?n div 4096 + (if ?n mod 4096 = 0 then 0 else 1)"
    by (simp only: q e)
  define k r where "k = ?n div 4096" and "r = ?n mod 4096"
  have "?n = k * 4096 + r"
    unfolding k_def r_def by simp
  then have "(k + (if r = 0 then 0 else 1)) * 4096 < 2 ^ 64"
    using sz by (simp add: algebra_simps)
  then have "(?n div 4096 + (if ?n mod 4096 = 0 then 0 else 1)) * 4096 < 2 ^ 64"
    unfolding k_def r_def .
  then have "unat ((sz + 9) div 4096 + ?e) * unat (4096 :: size_t) < 2 ^ LENGTH(64)"
    by (simp only: s) simp
  then have "unat (((sz + 9) div 4096 + ?e) * 4096) = unat ((sz + 9) div 4096 + ?e) * unat (4096 :: size_t)"
    by (simp only: unat_mult_lem [THEN iffD1])
  then show ?thesis
    by (simp only: s page_round_alt) simp
qed

lemma mmap_non_bucket_layout:
  assumes "8192 < sz" "sz \<le> 0xFFFFFFFFFFFFEFF7"
    "os_mmap (page_round (unat sz + 9)) s = (p, s1)" "p \<noteq> 0" "p \<noteq> MAP_FAILED"
  shows "\<exists>s'. mmap_non_bucket s sz = Inr (p + 9, s') \<and>
           mappings s' = (p, page_round (unat sz + 9)) # mappings s \<and>
           SMALL_PAGE dvd page_round (unat sz + 9) \<and>
           unat sz + 9 \<le> page_round (unat sz + 9) \<and>
           page_round (unat sz + 9) < unat sz + 9 + SMALL_PAGE \<and>
           unat (read_u64 (mem s') p) = page_round (unat sz + 9) \<and>
           mem s' (p + 8) = c_Non_Bucket_Flag \<and>
           (sz = 10000 \<longrightarrow> read_u64 (mem s') p = 12288)"
proof -
  let ?size2 = "((sz + 9) div 4096 + (if (sz + 9) mod 4096 = 0 then 0 else 1)) * 4096"
  have len: "unat ?size2 = page_round (unat sz + 9)"
    by (rule round_word [OF assms(2)])
  have ten: "sz = 10000 \<Longrightarrow> ?size2 = 12288"
    by simp
  have m: "mappings s1 = (p, page_round (unat sz + 9)) # mappings s"
    using assms(3,5) by (auto simp: os_mmap_def split: if_splits)
  show ?thesis
    using assms(1,4,5) len ten m page_round_bounds [of "unat sz + 9"]
    by (simp add: mmap_non_bucket_def assms(3) Let_def read_u64_flag read_write_u64)
qed

text \<open>
  What the missing test costs: when \<open>mmap\<close> answers \<open>MAP_FAILED\<close>, \<open>mmap_non_bucket\<close> does
  not report it and stores through the pointer.
\<close>

lemma mmap_non_bucket_refused:
  assumes "8192 < sz" "sz \<le> 0xFFFFFFFFFFFFEFF7"
    "os_mmap (page_round (unat sz + 9)) s = (MAP_FAILED, s1)"
  shows "mmap_non_bucket s sz = Inl (Invalid_access, s1)"
proof -
  let ?size2 = "((sz + 9) div 4096 + (if (sz + 9) mod 4096 = 0 then 0 else 1)) * 4096"
  have len: "unat ?size2 = page_round (unat sz + 9)"
    by (rule round_word [OF assms(2)])
  show ?thesis
    using assms(1) len by (simp add: mmap_non_bucket_def assms(3) Let_def)
qed

subsection \<open>The constructor\<close>

lemma gen_class_byte:
  "b < 21 \<Longrightarrow> gen_header_size (of_nat (c_Bucket_Sizes ! b)) = Inr (class_byte b)"
  unfolding class_byte_def
  by (erule cases21; simp add: c_Bucket_Sizes_def gen_class)

lemma chunk_len: "b < 21 \<Longrightarrow> 0 < c_MMAP_Chunks ! b \<and> c_MMAP_Chunks ! b \<le> 32"
  by (erule cases21; simp add: c_MMAP_Chunks_def)

lemma page_round_chunk: "page_round (k * ALLOC_CHUNK) = k * ALLOC_CHUNK"
  by (simp add: page_round_def)

lemma below_limit:
  assumes "unat (x :: addr) + n \<le> unat (l :: addr)" "0 < n"
  shows "unat x + n < 2 ^ 64" and "x \<noteq> - 1"
proof -
  have "unat l < 2 ^ 64"
    using unsigned_less [of l] by simp
  with assms(1) show *: "unat x + n < 2 ^ 64" by simp
  have "unat (- 1 :: addr) = 18446744073709551615"
    by (simp add: unsigned_minus_1_eq_mask mask_eq_exp_minus_1)
  with * assms(2) show "x \<noteq> - 1" by auto
qed

lemma init_cell_step:
  assumes "b < 21" "brk s \<noteq> 0"
    "unat (brk s) + c_MMAP_Chunks ! b * ALLOC_CHUNK \<le> unat (as_limit s)"
  shows "init_cell b a (Inr s) =
    Inr (s\<lparr>mem := (\<lambda>x. if unat (x - brk s) < c_MMAP_Chunks ! b * ALLOC_CHUNK then 0 else mem s x),
           mappings := (brk s, c_MMAP_Chunks ! b * ALLOC_CHUNK) # mappings s,
           brk := brk s + of_nat (c_MMAP_Chunks ! b * ALLOC_CHUNK),
           hdrs := (hdrs s)(brk s \<mapsto>
             zero_header\<lparr>size_byte := class_byte b, next_page := g_Bucket_Stacks s b a\<rparr>),
           g_Bucket_Stacks := (g_Bucket_Stacks s)(b := (g_Bucket_Stacks s b)(a := brk s))\<rparr>)"
proof -
  from chunk_len [OF assms(1)] have L: "0 < c_MMAP_Chunks ! b" "c_MMAP_Chunks ! b \<le> 32" by auto
  then have big: "20480 \<le> c_MMAP_Chunks ! b * ALLOC_CHUNK" by simp
  then have "0 < c_MMAP_Chunks ! b * ALLOC_CHUNK" by simp
  from below_limit(2) [OF assms(3) this] have nm: "brk s \<noteq> - 1" .
  have fits: "\<not> unat (as_limit s) < unat (brk s) + c_MMAP_Chunks ! b * ALLOC_CHUNK"
    using assms(3) by simp
  from L big assms(1,2) nm fits show ?thesis
    by (simp add: init_cell_def mmap_bucket_def os_mmap_def os_madvise_def gen_class_byte
        page_round_chunk Let_def)
qed

lemma unat_bump:
  assumes "unat (x :: 64 word) + n < 2 ^ 64"
  shows "unat (x + of_nat n) = unat x + n"
proof -
  have n: "unat (of_nat n :: 64 word) = n"
    using assms by (simp add: unat_of_nat)
  with assms show ?thesis
    by (simp add: unat_add_lem [THEN iffD1])
qed

text \<open>
  Running the constructor's loop body over a list of cells: every cell receives a chunk,
  one after the other from \<open>brk\<close> on.
\<close>

lemma init_cells_frame:
  assumes "\<forall>(b, a) \<in> set cs. b < 21" "0 < unat (brk s)"
    "unat (brk s) + 2 ^ 26 * length cs \<le> unat (as_limit s)"
  shows "\<exists>s'. fold (\<lambda>(b, a). init_cell b a) cs (Inr s) = Inr s' \<and>
          unat (brk s) \<le> unat (brk s') \<and>
          unat (brk s') \<le> unat (brk s) + 2 ^ 26 * length cs \<and>
          brk s' = brk s + of_nat (sum_list (map (\<lambda>(b, a). c_MMAP_Chunks ! b * ALLOC_CHUNK) cs)) \<and>
          as_limit s' = as_limit s \<and>
          (\<forall>x. unat x < unat (brk s) \<longrightarrow> hdrs s' x = hdrs s x) \<and>
          (\<forall>b a. (b, a) \<notin> set cs \<longrightarrow> g_Bucket_Stacks s' b a = g_Bucket_Stacks s b a) \<and>
          t_Favorite_Arenas s' = t_Favorite_Arenas s \<and> busy s' = busy s"
  using assms
proof (induction cs arbitrary: s)
  case Nil
  then show ?case by simp
next
  case (Cons c cs)
  obtain b a where c: "c = (b, a)" by (cases c)
  from Cons.prems(1) c have b: "b < 21" by simp
  let ?L = "c_MMAP_Chunks ! b * ALLOC_CHUNK"
  let ?T = "\<lambda>cs. sum_list (map (\<lambda>(b, a). c_MMAP_Chunks ! b * ALLOC_CHUNK) cs)"
  from chunk_len [OF b] have L: "0 < ?L" "?L \<le> 2 ^ 26" by simp_all
  from Cons.prems(2) have nz: "brk s \<noteq> 0" by (auto simp: unat_gt_0)
  have room: "unat (brk s) + ?L \<le> unat (as_limit s)"
    using Cons.prems(3) L by simp
  define s1 where "s1 = s\<lparr>mem := (\<lambda>x. if unat (x - brk s) < ?L then 0 else mem s x),
           mappings := (brk s, ?L) # mappings s,
           brk := brk s + of_nat ?L,
           hdrs := (hdrs s)(brk s \<mapsto>
             zero_header\<lparr>size_byte := class_byte b, next_page := g_Bucket_Stacks s b a\<rparr>),
           g_Bucket_Stacks := (g_Bucket_Stacks s)(b := (g_Bucket_Stacks s b)(a := brk s))\<rparr>"
  have step: "init_cell b a (Inr s) = Inr s1"
    unfolding s1_def by (rule init_cell_step [OF b nz room])
  have "unat (brk s) + ?L < 2 ^ 64"
    using below_limit(1) [OF room] L by simp
  then have brk1: "unat (brk s1) = unat (brk s) + ?L"
    using unat_bump [of "brk s" ?L] by (simp add: s1_def del: of_nat_mult)
  have brk1w: "brk s1 = brk s + of_nat ?L"
    by (simp add: s1_def)
  have lim1: "as_limit s1 = as_limit s"
    by (simp add: s1_def)
  have "\<exists>s'. fold (\<lambda>(b, a). init_cell b a) cs (Inr s1) = Inr s' \<and>
          unat (brk s1) \<le> unat (brk s') \<and>
          unat (brk s') \<le> unat (brk s1) + 2 ^ 26 * length cs \<and>
          brk s' = brk s1 + of_nat (?T cs) \<and>
          as_limit s' = as_limit s1 \<and>
          (\<forall>x. unat x < unat (brk s1) \<longrightarrow> hdrs s' x = hdrs s1 x) \<and>
          (\<forall>b a. (b, a) \<notin> set cs \<longrightarrow> g_Bucket_Stacks s' b a = g_Bucket_Stacks s1 b a) \<and>
          t_Favorite_Arenas s' = t_Favorite_Arenas s1 \<and> busy s' = busy s1"
  proof (rule Cons.IH)
    show "\<forall>(b, a) \<in> set cs. b < 21" using Cons.prems(1) by simp
    show "0 < unat (brk s1)" using brk1 L by simp
    show "unat (brk s1) + 2 ^ 26 * length cs \<le> unat (as_limit s1)"
      using brk1 L Cons.prems(3) lim1 by simp
  qed
  then obtain s' where s': "fold (\<lambda>(b, a). init_cell b a) cs (Inr s1) = Inr s'"
    "unat (brk s1) \<le> unat (brk s')" "unat (brk s') \<le> unat (brk s1) + 2 ^ 26 * length cs"
    "\<And>x. unat x < unat (brk s1) \<Longrightarrow> hdrs s' x = hdrs s1 x"
    "\<And>b a. (b, a) \<notin> set cs \<Longrightarrow> g_Bucket_Stacks s' b a = g_Bucket_Stacks s1 b a"
    "t_Favorite_Arenas s' = t_Favorite_Arenas s1" "busy s' = busy s1"
    "brk s' = brk s1 + of_nat (?T cs)" "as_limit s' = as_limit s1"
    by blast
  have "fold (\<lambda>(b, a). init_cell b a) (c # cs) (Inr s) = Inr s'"
    using s'(1) step c by simp
  moreover have "unat (brk s) \<le> unat (brk s')" using s'(2) brk1 by simp
  moreover have "unat (brk s') \<le> unat (brk s) + 2 ^ 26 * length (c # cs)"
    using s'(3) brk1 L by simp
  moreover have "brk s' = brk s + of_nat (?T (c # cs))"
  proof -
    have "?T (c # cs) = ?L + ?T cs"
      by (simp add: c)
    then have "(of_nat (?T (c # cs)) :: addr) = of_nat ?L + of_nat (?T cs)"
      by (simp only: of_nat_add)
    then show ?thesis
      by (simp only: s'(8) brk1w add.assoc)
  qed
  moreover have "as_limit s' = as_limit s"
    using s'(9) lim1 by simp
  moreover have "\<forall>x. unat x < unat (brk s) \<longrightarrow> hdrs s' x = hdrs s x"
  proof (intro allI impI)
    fix x :: addr
    assume x: "unat x < unat (brk s)"
    then have "x \<noteq> brk s" by auto
    moreover have "unat x < unat (brk s1)" using x brk1 by simp
    ultimately show "hdrs s' x = hdrs s x"
      using s'(4) [of x] by (simp add: s1_def)
  qed
  moreover have "\<forall>b' a'. (b', a') \<notin> set (c # cs) \<longrightarrow>
      g_Bucket_Stacks s' b' a' = g_Bucket_Stacks s b' a'"
    using s'(5) c by (auto simp: s1_def)
  moreover have "t_Favorite_Arenas s' = t_Favorite_Arenas s" "busy s' = busy s"
    using s'(6,7) by (simp_all add: s1_def)
  ultimately show ?case by blast
qed

lemma init_cells_target:
  assumes "\<forall>(b, a) \<in> set cs. b < 21" "cs = pre @ (b0, a0) # post"
    "(b0, a0) \<notin> set pre" "(b0, a0) \<notin> set post"
    "0 < unat (brk s)" "unat (brk s) + 2 ^ 26 * length cs \<le> unat (as_limit s)"
    "g_Bucket_Stacks s b0 a0 = 0"
  shows "\<exists>s'. fold (\<lambda>(b, a). init_cell b a) cs (Inr s) = Inr s' \<and>
          g_Bucket_Stacks s' b0 a0 =
            brk s + of_nat (sum_list (map (\<lambda>(b, a). c_MMAP_Chunks ! b * ALLOC_CHUNK) pre)) \<and>
          g_Bucket_Stacks s' b0 a0 \<noteq> 0 \<and>
          hdrs s' (g_Bucket_Stacks s' b0 a0) = Some (zero_header\<lparr>size_byte := class_byte b0\<rparr>) \<and>
          t_Favorite_Arenas s' = t_Favorite_Arenas s \<and> busy s' = busy s \<and>
          as_limit s' = as_limit s \<and>
          brk s' = brk s + of_nat (sum_list (map (\<lambda>(b, a). c_MMAP_Chunks ! b * ALLOC_CHUNK) cs)) \<and>
          0 < unat (brk s') \<and> unat (brk s') \<le> unat (brk s) + 2 ^ 26 * length cs \<and>
          unat (g_Bucket_Stacks s' b0 a0) + c_MMAP_Chunks ! b0 * ALLOC_CHUNK \<le> unat (brk s')"
proof -
  note cs = assms(2)
  note notin = assms(3,4)
  let ?T = "\<lambda>cs. sum_list (map (\<lambda>(b, a). c_MMAP_Chunks ! b * ALLOC_CHUNK) cs)"
  from assms(1) cs have b0: "b0 < 21" by simp
  let ?L = "c_MMAP_Chunks ! b0 * ALLOC_CHUNK"
  from chunk_len [OF b0] have L: "0 < ?L" "?L \<le> 2 ^ 26" by simp_all
  have len: "length cs = length pre + 1 + length post" by (simp add: cs)
  have "\<exists>s'. fold (\<lambda>(b, a). init_cell b a) pre (Inr s) = Inr s' \<and>
          unat (brk s) \<le> unat (brk s') \<and>
          unat (brk s') \<le> unat (brk s) + 2 ^ 26 * length pre \<and>
          brk s' = brk s + of_nat (?T pre) \<and>
          as_limit s' = as_limit s \<and>
          (\<forall>x. unat x < unat (brk s) \<longrightarrow> hdrs s' x = hdrs s x) \<and>
          (\<forall>b a. (b, a) \<notin> set pre \<longrightarrow> g_Bucket_Stacks s' b a = g_Bucket_Stacks s b a) \<and>
          t_Favorite_Arenas s' = t_Favorite_Arenas s \<and> busy s' = busy s"
  proof (rule init_cells_frame)
    show "\<forall>(b, a) \<in> set pre. b < 21" using assms(1) cs by simp
    show "0 < unat (brk s)" by (rule assms(5))
    show "unat (brk s) + 2 ^ 26 * length pre \<le> unat (as_limit s)" using assms(6) len by simp
  qed
  then obtain s1 where s1: "fold (\<lambda>(b, a). init_cell b a) pre (Inr s) = Inr s1"
    "unat (brk s) \<le> unat (brk s1)" "unat (brk s1) \<le> unat (brk s) + 2 ^ 26 * length pre"
    "g_Bucket_Stacks s1 b0 a0 = g_Bucket_Stacks s b0 a0"
    "t_Favorite_Arenas s1 = t_Favorite_Arenas s" "busy s1 = busy s"
    "brk s1 = brk s + of_nat (?T pre)" "as_limit s1 = as_limit s"
    using notin(1) by blast
  from s1(2) assms(5) have "0 < unat (brk s1)" by simp
  then have nz: "brk s1 \<noteq> 0" by (simp add: unat_gt_0)
  have room: "unat (brk s1) + ?L \<le> unat (as_limit s1)"
    using s1(3,8) assms(6) len L by simp
  define s2 where "s2 = s1\<lparr>mem := (\<lambda>x. if unat (x - brk s1) < ?L then 0 else mem s1 x),
           mappings := (brk s1, ?L) # mappings s1,
           brk := brk s1 + of_nat ?L,
           hdrs := (hdrs s1)(brk s1 \<mapsto>
             zero_header\<lparr>size_byte := class_byte b0, next_page := g_Bucket_Stacks s1 b0 a0\<rparr>),
           g_Bucket_Stacks := (g_Bucket_Stacks s1)(b0 := (g_Bucket_Stacks s1 b0)(a0 := brk s1))\<rparr>"
  have step: "init_cell b0 a0 (Inr s1) = Inr s2"
    unfolding s2_def by (rule init_cell_step [OF b0 nz room])
  have "unat (brk s1) + ?L < 2 ^ 64"
    using below_limit(1) [OF room] L by simp
  then have brk2: "unat (brk s2) = unat (brk s1) + ?L"
    using unat_bump [of "brk s1" ?L] by (simp add: s2_def del: of_nat_mult)
  have brk2w: "brk s2 = brk s1 + of_nat ?L" and lim2: "as_limit s2 = as_limit s1"
    by (simp_all add: s2_def)
  have cell2: "g_Bucket_Stacks s2 b0 a0 = brk s1"
    "hdrs s2 (brk s1) = Some (zero_header\<lparr>size_byte := class_byte b0\<rparr>)"
    using s1(4) assms(7) by (simp_all add: s2_def zero_header_def)
  have "\<exists>s'. fold (\<lambda>(b, a). init_cell b a) post (Inr s2) = Inr s' \<and>
          unat (brk s2) \<le> unat (brk s') \<and>
          unat (brk s') \<le> unat (brk s2) + 2 ^ 26 * length post \<and>
          brk s' = brk s2 + of_nat (?T post) \<and>
          as_limit s' = as_limit s2 \<and>
          (\<forall>x. unat x < unat (brk s2) \<longrightarrow> hdrs s' x = hdrs s2 x) \<and>
          (\<forall>b a. (b, a) \<notin> set post \<longrightarrow> g_Bucket_Stacks s' b a = g_Bucket_Stacks s2 b a) \<and>
          t_Favorite_Arenas s' = t_Favorite_Arenas s2 \<and> busy s' = busy s2"
  proof (rule init_cells_frame)
    show "\<forall>(b, a) \<in> set post. b < 21" using assms(1) cs by simp
    show "0 < unat (brk s2)" using brk2 L by simp
    show "unat (brk s2) + 2 ^ 26 * length post \<le> unat (as_limit s2)"
      using brk2 s1(3,8) lim2 assms(6) len L by simp
  qed
  then obtain s3 where s3: "fold (\<lambda>(b, a). init_cell b a) post (Inr s2) = Inr s3"
    "unat (brk s2) \<le> unat (brk s3)" "unat (brk s3) \<le> unat (brk s2) + 2 ^ 26 * length post"
    "\<And>x. unat x < unat (brk s2) \<Longrightarrow> hdrs s3 x = hdrs s2 x"
    "g_Bucket_Stacks s3 b0 a0 = g_Bucket_Stacks s2 b0 a0"
    "t_Favorite_Arenas s3 = t_Favorite_Arenas s2" "busy s3 = busy s2"
    "brk s3 = brk s2 + of_nat (?T post)" "as_limit s3 = as_limit s2"
    using notin(2) by blast
  have "fold (\<lambda>(b, a). init_cell b a) cs (Inr s) = Inr s3"
    by (simp add: cs s1(1) step s3(1))
  moreover have "g_Bucket_Stacks s3 b0 a0 = brk s + of_nat (?T pre)"
    using s3(5) cell2(1) s1(7) by simp
  moreover have "g_Bucket_Stacks s3 b0 a0 \<noteq> 0"
    using s3(5) cell2(1) nz by simp
  moreover have "hdrs s3 (g_Bucket_Stacks s3 b0 a0) =
      Some (zero_header\<lparr>size_byte := class_byte b0\<rparr>)"
    using s3(4) [of "brk s1"] s3(5) cell2 brk2 L by simp
  moreover have "t_Favorite_Arenas s3 = t_Favorite_Arenas s" "busy s3 = busy s"
    using s3(6,7) s1(5,6) by (simp_all add: s2_def)
  moreover have "as_limit s3 = as_limit s"
    using s3(9) lim2 s1(8) by simp
  moreover have "brk s3 = brk s + of_nat (?T cs)"
  proof -
    have "?T cs = ?T pre + ?L + ?T post"
      by (simp add: cs)
    then have "(of_nat (?T cs) :: addr) = of_nat (?T pre) + of_nat ?L + of_nat (?T post)"
      by (simp only: of_nat_add)
    then show ?thesis
      by (simp only: s3(8) brk2w s1(7) add.assoc)
  qed
  moreover have "0 < unat (brk s3)" using s3(2) brk2 L by simp
  moreover have "unat (brk s3) \<le> unat (brk s) + 2 ^ 26 * length cs"
    using s3(3) brk2 s1(3) L len by simp
  moreover have "unat (g_Bucket_Stacks s3 b0 a0) + ?L \<le> unat (brk s3)"
    using s3(2,5) cell2(1) brk2 by simp
  ultimately show ?thesis by blast
qed

lemma fold_cells:
  "fold (\<lambda>b. fold (f b) as) bs r = fold (\<lambda>(b, a). f b a) (List.product bs as) r"
  by (induction bs arbitrary: r) (simp_all add: fold_map comp_def)

lemma start_split:
  assumes "0 < unat first" "unat first + 168 * 2 ^ 26 \<le> 2 ^ 47"
    "List.product [0..<BUCKET_NUM] [0..<ARENA_NUM] = pre @ (b, a) # post"
    "(b, a) \<notin> set pre" "(b, a) \<notin> set post"
  shows "initialize_mutexes (boot first) = Inr (start first) \<and>
         g_Bucket_Stacks (start first) b a =
           first + of_nat (sum_list (map (\<lambda>(b, a). c_MMAP_Chunks ! b * ALLOC_CHUNK) pre)) \<and>
         g_Bucket_Stacks (start first) b a \<noteq> 0 \<and>
         hdrs (start first) (g_Bucket_Stacks (start first) b a) =
           Some (zero_header\<lparr>size_byte := class_byte b\<rparr>) \<and>
         t_Favorite_Arenas (start first) = (\<lambda>b. 0) \<and> busy (start first) = (\<lambda>b a. False) \<and>
         as_limit (start first) = 0x800000000000 \<and>
         brk (start first) = first + of_nat (sum_list (map (\<lambda>(b, a). c_MMAP_Chunks ! b * ALLOC_CHUNK)
             (List.product [0..<BUCKET_NUM] [0..<ARENA_NUM]))) \<and>
         0 < unat (brk (start first)) \<and> unat (brk (start first)) \<le> unat first + 168 * 2 ^ 26 \<and>
         unat (g_Bucket_Stacks (start first) b a) + c_MMAP_Chunks ! b * ALLOC_CHUNK
           \<le> unat (brk (start first))"
proof -
  let ?cs = "List.product [0..<BUCKET_NUM] [0..<ARENA_NUM]"
  let ?T = "\<lambda>cs. sum_list (map (\<lambda>(b, a). c_MMAP_Chunks ! b * ALLOC_CHUNK) cs)"
  have lim: "unat (as_limit (boot first)) = 2 ^ 47"
    by (simp add: boot_def)
  have "\<exists>s'. fold (\<lambda>(b, a). init_cell b a) ?cs (Inr (boot first)) = Inr s' \<and>
          g_Bucket_Stacks s' b a = brk (boot first) + of_nat (?T pre) \<and>
          g_Bucket_Stacks s' b a \<noteq> 0 \<and>
          hdrs s' (g_Bucket_Stacks s' b a) = Some (zero_header\<lparr>size_byte := class_byte b\<rparr>) \<and>
          t_Favorite_Arenas s' = t_Favorite_Arenas (boot first) \<and> busy s' = busy (boot first) \<and>
          as_limit s' = as_limit (boot first) \<and>
          brk s' = brk (boot first) + of_nat (?T ?cs) \<and>
          0 < unat (brk s') \<and> unat (brk s') \<le> unat (brk (boot first)) + 2 ^ 26 * length ?cs \<and>
          unat (g_Bucket_Stacks s' b a) + c_MMAP_Chunks ! b * ALLOC_CHUNK \<le> unat (brk s')"
  proof (rule init_cells_target)
    show "\<forall>(b, a) \<in> set ?cs. b < 21" by auto
    show "?cs = pre @ (b, a) # post" by (rule assms(3))
    show "(b, a) \<notin> set pre" "(b, a) \<notin> set post" by (rule assms(4), rule assms(5))
    show "0 < unat (brk (boot first))" using assms(1) by (simp add: boot_def)
    show "unat (brk (boot first)) + 2 ^ 26 * length ?cs \<le> unat (as_limit (boot first))"
      unfolding lim using assms(2) by (simp add: boot_def)
    show "g_Bucket_Stacks (boot first) b a = 0" by (simp add: boot_def)
  qed
  then obtain s' where s': "fold (\<lambda>(b, a). init_cell b a) ?cs (Inr (boot first)) = Inr s'"
    "g_Bucket_Stacks s' b a = brk (boot first) + of_nat (?T pre)"
    "g_Bucket_Stacks s' b a \<noteq> 0"
    "hdrs s' (g_Bucket_Stacks s' b a) = Some (zero_header\<lparr>size_byte := class_byte b\<rparr>)"
    "t_Favorite_Arenas s' = t_Favorite_Arenas (boot first)" "busy s' = busy (boot first)"
    "as_limit s' = as_limit (boot first)" "brk s' = brk (boot first) + of_nat (?T ?cs)"
    "0 < unat (brk s')" "unat (brk s') \<le> unat (brk (boot first)) + 2 ^ 26 * length ?cs"
    "unat (g_Bucket_Stacks s' b a) + c_MMAP_Chunks ! b * ALLOC_CHUNK \<le> unat (brk s')"
    by blast
  have init: "initialize_mutexes (boot first) = Inr s'"
    using s'(1) by (simp add: initialize_mutexes_def fold_cells c_Bucket_Sizes_def)
  then have st: "start first = s'" by (simp add: start_def)
  have b: "brk (boot first) = first" "as_limit (boot first) = 0x800000000000"
    "t_Favorite_Arenas (boot first) = (\<lambda>b. 0)" "busy (boot first) = (\<lambda>b a. False)"
    by (simp_all add: boot_def)
  have n: "length ?cs = 168" by simp
  show ?thesis
    unfolding st using init s' unfolding st b n by simp
qed

lemma start_cell:
  assumes "0 < unat first" "unat first + 168 * 2 ^ 26 \<le> 2 ^ 47" "b < BUCKET_NUM" "a < ARENA_NUM"
  shows "initialize_mutexes (boot first) = Inr (start first) \<and>
         g_Bucket_Stacks (start first) b a \<noteq> 0 \<and>
         hdrs (start first) (g_Bucket_Stacks (start first) b a) =
           Some (zero_header\<lparr>size_byte := class_byte b\<rparr>) \<and>
         t_Favorite_Arenas (start first) = (\<lambda>b. 0) \<and> busy (start first) = (\<lambda>b a. False) \<and>
         as_limit (start first) = 0x800000000000 \<and>
         0 < unat (brk (start first)) \<and> unat (brk (start first)) \<le> unat first + 168 * 2 ^ 26 \<and>
         unat (g_Bucket_Stacks (start first) b a) + c_MMAP_Chunks ! b * ALLOC_CHUNK
           \<le> unat (brk (start first))"
proof -
  let ?cs = "List.product [0..<BUCKET_NUM] [0..<ARENA_NUM]"
  have "(b, a) \<in> set ?cs" using assms(3,4) by simp
  from split_list [OF this] obtain pre post where cs: "?cs = pre @ (b, a) # post"
    by blast
  have "distinct ?cs" by (simp add: distinct_product)
  with cs have "(b, a) \<notin> set pre" "(b, a) \<notin> set post" by auto
  from start_split [OF assms(1,2) cs this] show ?thesis by blast
qed

text \<open>The chunks of arena 0, which precede the chunks of the other arenas of their class.\<close>

lemma product_append:
  "List.product (xs @ ys) zs = List.product xs zs @ List.product ys zs"
  by (induction xs) simp_all

lemma product_split:
  assumes "b < 21"
  shows "List.product [0..<BUCKET_NUM] [0..<ARENA_NUM] =
    List.product [0..<b] [0..<ARENA_NUM] @ (b, 0) #
      (map (Pair b) [1..<ARENA_NUM] @ List.product [Suc b..<BUCKET_NUM] [0..<ARENA_NUM])"
proof -
  have "[0..<BUCKET_NUM] = [0..<b] @ b # [Suc b..<BUCKET_NUM]"
    using assms upt_add_eq_append [of 0 b "21 - b"] by (simp add: upt_conv_Cons)
  moreover have "[0..<ARENA_NUM] = 0 # [1..<ARENA_NUM]"
    by (simp add: upt_conv_Cons)
  ultimately show ?thesis
    by (simp only: product_append List.product.simps map_append list.map append_Cons
        append_assoc append_Nil)
qed

lemma sum_product:
  "sum_list (map (\<lambda>(b, a). f b) (List.product xs ys)) = length ys * sum_list (map f xs)"
  by (induction xs) (simp_all add: comp_def sum_list_triv algebra_simps)

lemma start_chunk:
  assumes "0 < unat first" "unat first + 168 * 2 ^ 26 \<le> 2 ^ 47" "b < BUCKET_NUM"
  shows "g_Bucket_Stacks (start first) b 0 =
           first + of_nat (8 * sum_list (map (\<lambda>b. c_MMAP_Chunks ! b * ALLOC_CHUNK) [0..<b]))"
    and "brk (start first) = first + 0x9C000000"
proof -
  let ?pre = "List.product [0..<b] [0..<ARENA_NUM]"
  let ?post = "map (Pair b) [1..<ARENA_NUM] @ List.product [Suc b..<BUCKET_NUM] [0..<ARENA_NUM]"
  have "(b, 0) \<notin> set ?pre" "(b, 0) \<notin> set ?post"
    by auto
  from start_split [OF assms(1,2) product_split [OF assms(3)] this]
  have *: "g_Bucket_Stacks (start first) b 0 =
           first + of_nat (sum_list (map (\<lambda>(b, a). c_MMAP_Chunks ! b * ALLOC_CHUNK) ?pre))"
    "brk (start first) = first + of_nat (sum_list (map (\<lambda>(b, a). c_MMAP_Chunks ! b * ALLOC_CHUNK)
             (List.product [0..<BUCKET_NUM] [0..<ARENA_NUM])))"
    by simp_all
  show "g_Bucket_Stacks (start first) b 0 =
           first + of_nat (8 * sum_list (map (\<lambda>b. c_MMAP_Chunks ! b * ALLOC_CHUNK) [0..<b]))"
    unfolding * sum_product by simp
  have "sum_list (map (\<lambda>b. c_MMAP_Chunks ! b * ALLOC_CHUNK) [0..<BUCKET_NUM]) = 327155712"
    by (simp add: c_MMAP_Chunks_def upt_conv_Cons)
  then show "brk (start first) = first + 0x9C000000"
    unfolding * sum_product by simp
qed

subsection \<open>The start state of the scenarios\<close>

lemma class_byte_eval:
  "class_byte 0 = 3" "class_byte 1 = 0x83" "class_byte (Suc 0) = 0x83" "class_byte 2 = 4" "class_byte 3 = 0x84"
  "class_byte 4 = 5" "class_byte 5 = 0x85" "class_byte 6 = 6" "class_byte 7 = 0x86"
  "class_byte 8 = 7" "class_byte 9 = 0x87" "class_byte 10 = 8" "class_byte 11 = 0x88"
  "class_byte 12 = 9" "class_byte 13 = 0x89" "class_byte 14 = 10" "class_byte 15 = 0x8A"
  "class_byte 16 = 11" "class_byte 17 = 0x8B" "class_byte 18 = 12" "class_byte 19 = 0x8C"
  "class_byte 20 = 13"
  by (simp_all add: class_byte_def c_Bucket_Sizes_def gen_class)


lemma class_size_bound: "c < 21 \<Longrightarrow> 8 \<le> c_Bucket_Sizes ! c \<and> c_Bucket_Sizes ! c \<le> 8192"
  by (erule cases21; simp add: c_Bucket_Sizes_def)

text \<open>The facts about the start state that the scenarios use.\<close>

lemma st0_cell:
  assumes "b < BUCKET_NUM"
  shows "chunk b \<noteq> 0"
    and "hdrs st0 (chunk b) = Some (zero_header\<lparr>size_byte := class_byte b\<rparr>)"
    and "g_Bucket_Stacks st0 b 0 = chunk b"
    and "t_Favorite_Arenas st0 b = 0" and "\<not> busy st0 b 0"
    and "unat (chunk b) + c_MMAP_Chunks ! b * ALLOC_CHUNK < 2 ^ 64"
proof -
  have *: "initialize_mutexes (boot 0x10000000) = Inr st0 \<and>
         g_Bucket_Stacks st0 b 0 \<noteq> 0 \<and>
         hdrs st0 (g_Bucket_Stacks st0 b 0) = Some (zero_header\<lparr>size_byte := class_byte b\<rparr>) \<and>
         t_Favorite_Arenas st0 = (\<lambda>b. 0) \<and> busy st0 = (\<lambda>b a. False) \<and>
         as_limit st0 = 0x800000000000 \<and>
         0 < unat (brk st0) \<and> unat (brk st0) \<le> unat (0x10000000 :: addr) + 168 * 2 ^ 26 \<and>
         unat (g_Bucket_Stacks st0 b 0) + c_MMAP_Chunks ! b * ALLOC_CHUNK \<le> unat (brk st0)"
    unfolding st0_def using assms by (intro start_cell) simp_all
  then show "chunk b \<noteq> 0" "hdrs st0 (chunk b) = Some (zero_header\<lparr>size_byte := class_byte b\<rparr>)"
    "g_Bucket_Stacks st0 b 0 = chunk b" "t_Favorite_Arenas st0 b = 0" "\<not> busy st0 b 0"
    by (simp_all add: chunk_def)
  from * show "unat (chunk b) + c_MMAP_Chunks ! b * ALLOC_CHUNK < 2 ^ 64"
    by (simp add: chunk_def)
qed

lemma st0_os: "brk st0 = 0xAC000000" "as_limit st0 = 0x800000000000"
proof -
  show "brk st0 = 0xAC000000"
    unfolding st0_def using start_chunk(2) [of "0x10000000" 0] by simp
  show "as_limit st0 = 0x800000000000"
    unfolding st0_def using start_cell [of "0x10000000" 0 0] by simp
qed

lemma st0_chunks: "chunk 8 = 0x1C000000" "chunk 10 = 0x24000000" "chunk 20 = 0x8C000000"
  unfolding chunk_def st0_def
  using start_chunk(1) [of "0x10000000" 8] start_chunk(1) [of "0x10000000" 10]
    start_chunk(1) [of "0x10000000" 20]
  by (simp_all add: c_MMAP_Chunks_def upt_conv_Cons)

lemma st0_brk: "brk st0 \<noteq> 0" "brk st0 \<noteq> - 1"
  by (simp_all add: st0_os)

text \<open>A pointer into a chunk is not \<open>NULL\<close>.\<close>

lemma chunk_ptr_nonzero:
  assumes "unat (x :: addr) + n < 2 ^ 64" "0 < n"
  shows "x + of_nat n \<noteq> 0"
proof -
  have "unat (x + of_nat n) = unat x + n"
    by (rule unat_bump [OF assms(1)])
  with assms(2) show ?thesis by auto
qed

subsection \<open>The branches of \<open>xrealloc\<close>\<close>

lemma xrealloc_large:
  assumes "prev \<noteq> 0" "mem s (prev - 1) = c_Non_Bucket_Flag"
  shows "xrealloc fuel s prev n =
    (if read_u64 (mem s) (prev - 9) < n \<or> n < read_u64 (mem s) (prev - 9) * 3 div 4
     then realloc_move fuel s prev n (read_u64 (mem s) (prev - 9))
     else Inr (prev, s))"
  using assms by (simp add: xrealloc_def Let_def)


lemma memcpy_outside: "\<not> a - dst < n \<Longrightarrow> memcpy m dst src n a = m a"
  by (simp add: memcpy_def)




subsection \<open>The first allocation from a chunk the constructor made\<close>

lemma pop_fresh:
  assumes "c < 21" "g_Bucket_Stacks s c 0 = X" "X \<noteq> 0"
    "hdrs s X = Some (zero_header\<lparr>size_byte := class_byte c\<rparr>)"
    "t_Favorite_Arenas s c = 0" "\<not> busy s c 0"
  shows "pop_bucket (Suc k) s c = Inr (slot_ptr c X 1, first_claim s c X)"
  using assms(1)
  by (rule cases21;
      use assms(2-) in \<open>simp add: pop_bucket_def bitmap_size_of_def lock_favorite_def
        zero_header_def claim_slot_def stride_of_def slot_ptr_def first_claim_def Let_def
        c_Bucket_Sizes_def c_MMAP_Chunks_def class_byte_eval\<close>)

subsection \<open>Bit masks and the scan\<close>

lemma msb_shift_nonzero: "k < 64 \<Longrightarrow> drop_bit k c_64_MSB_High \<noteq> 0"
proof
  assume k: "k < 64" and z: "drop_bit k c_64_MSB_High = 0"
  have "c_64_MSB_High = (push_bit 63 1 :: 64 word)" by simp
  then have "bit (drop_bit k c_64_MSB_High) (63 - k)"
    using k by (simp only: bit_drop_bit_eq) (simp add: bit_simps)
  with z show False by simp
qed

lemma free_not_full:
  assumes "w AND drop_bit k c_64_MSB_High = 0" "k < 64"
  shows "w \<noteq> c_64_All_High"
proof
  assume "w = c_64_All_High"
  then have "w = - 1" by simp
  with assms(1) have "drop_bit k c_64_MSB_High = 0" by simp
  with msb_shift_nonzero [OF assms(2)] show False by simp
qed

lemma unat_ucast_small:
  "unat (w :: 'a::len word) < 2 ^ LENGTH('b::len) \<Longrightarrow> unat (ucast w :: 'b word) = unat w"
  by (simp add: unsigned_ucast_eq take_bit_nat_eq_self)

lemma shift_lt_64: "unat (ucast (i mod 64 :: 32 word) :: 8 word) < 64"
proof -
  have "unat (i mod 64) < 64"
    by (simp add: unat_mod)
  then show ?thesis
    by (simp add: unat_ucast_small)
qed

lemma bitmap_size_bound: "c < 21 \<Longrightarrow> 0 < bitmap_size_of c \<and> unat (bitmap_size_of c) \<le> 159780"
  by (erule cases21; simp add: bitmap_size_of_def c_Bucket_Sizes_def c_MMAP_Chunks_def)

lemma index_in_bitmap:
  assumes "unat (i :: 32 word) < 159808"
  shows "unat (ucast (i div 64) :: 16 word) < BITMAP_LONGS"
proof -
  have "unat (i div 64) = unat i div 64"
    by (simp add: unat_div)
  with assms have "unat (i div 64) < 2497" by simp
  then show ?thesis
    by (simp add: unat_ucast_small)
qed

text \<open>What a returned \<open>pop_bucket\<close> leaves in the header it took the slot from.\<close>

lemma claim_slot_result:
  assumes "claim_slot s c header offset bitmap_i bitmap_shift = Inr (p, s')"
  shows "\<exists>h'. hdrs s' header = Some h' \<and> last_offset h' = offset \<and> p = slot_ptr c header offset"
  using assms
  by (auto simp: claim_slot_def slot_ptr_def Let_def split: option.splits if_splits)

lemma pop_bucket_result:
  assumes "pop_bucket fuel s c = Inr (p, s')"
  shows "\<exists>header h'. hdrs s' header = Some h' \<and> p = slot_ptr c header (last_offset h')"
proof -
  from assms obtain s1 header offset bitmap_i bitmap_shift
    where "claim_slot s1 c header offset bitmap_i bitmap_shift = Inr (p, s')"
    by (auto simp: pop_bucket_def Let_def split: if_splits sum.splits option.splits prod.splits)
  from claim_slot_result [OF this] show ?thesis by blast
qed

lemma push_bucket_last_offset:
  assumes "push_bucket s c a header address = Inr s'" "hdrs s x = Some h"
  shows "\<exists>h'. hdrs s' x = Some h' \<and> last_offset h' = last_offset h"
  using assms
  by (auto simp: push_bucket_def Let_def split: if_splits option.splits)

lemma xfree_last_offset:
  assumes "xfree s p = Inr s'" "hdrs s x = Some h"
  shows "\<exists>h'. hdrs s' x = Some h' \<and> last_offset h' = last_offset h"
proof (cases "p \<noteq> 0 \<and> mem s (p - 1) \<noteq> c_Non_Bucket_Flag")
  case True
  with assms(1) obtain c a header address where "push_bucket s c a header address = Inr s'"
    by (auto simp: xfree_def Let_def split: if_splits option.splits)
  from push_bucket_last_offset [OF this assms(2)] show ?thesis .
next
  case False
  with assms show ?thesis
    by (auto simp: xfree_def os_munmap_def Let_def split: if_splits option.splits)
qed

lemma pop_bucket_cursor:
  assumes "c < BUCKET_NUM"
    "g_Bucket_Stacks s c (unat (t_Favorite_Arenas (lock_favorite s c) c)) = header" "header \<noteq> 0"
    "hdrs s header = Some h"
    "(last_offset h + 1) mod bitmap_size_of c \<noteq> last_offset h"
    "slot_free h ((last_offset h + 1) mod bitmap_size_of c)"
  shows "\<exists>s' h'. pop_bucket (Suc k) s c =
            Inr (slot_ptr c header ((last_offset h + 1) mod bitmap_size_of c), s') \<and>
          hdrs s' header = Some h' \<and>
          last_offset h' = (last_offset h + 1) mod bitmap_size_of c"
proof -
  let ?i = "(last_offset h + 1) mod bitmap_size_of c"
  let ?s1 = "lock_favorite s c"
  from bitmap_size_bound [OF assms(1)]
  have size: "0 < bitmap_size_of c" "unat (bitmap_size_of c) \<le> 159780" by simp_all
  have "?i < bitmap_size_of c"
    using size(1) by (rule word_mod_less_divisor)
  then have "unat ?i < 159808"
    using size(2) by (simp add: word_less_nat_alt)
  then have idx: "unat (ucast (?i div 64) :: 16 word) < BITMAP_LONGS"
    by (rule index_in_bitmap)
  have sh: "unat (ucast (?i mod 64) :: 8 word) < 64"
    by (rule shift_lt_64)
  have free: "bitmap h ! unat (ucast (?i div 64) :: 16 word) AND
      drop_bit (unat (ucast (?i mod 64) :: 8 word)) c_64_MSB_High = 0"
    using assms(6) by (simp add: slot_free_def)
  have nfull: "bitmap h ! unat (ucast (?i div 64) :: 16 word) \<noteq> c_64_All_High"
    by (rule free_not_full [OF free sh])
  have scan: "scan_slots (Suc k) h (bitmap_size_of c) ?i = Inr (Some ?i)"
    using assms(5) idx free nfull by (simp add: Let_def)
  have l: "hdrs ?s1 = hdrs s" "g_Bucket_Stacks ?s1 = g_Bucket_Stacks s"
    by (simp_all add: lock_favorite_def)
  have walk: "walk_headers (Suc k) (Suc k) ?s1
      (g_Bucket_Stacks ?s1 c (unat (t_Favorite_Arenas ?s1 c))) (bitmap_size_of c) =
      Inr (Some (header, ?i))"
    using assms(2,3,4) scan by (simp add: l)
  have claim: "\<exists>s' h'. claim_slot ?s1 c header ?i (ucast (?i div 64)) (ucast (?i mod 64)) =
      Inr (slot_ptr c header ?i, s') \<and> hdrs s' header = Some h' \<and> last_offset h' = ?i"
    using assms(4) idx by (simp add: claim_slot_def l slot_ptr_def Let_def)
  show ?thesis
    using assms(1) size(2) walk claim
    by (simp add: pop_bucket_def Let_def)
qed

subsection \<open>Runs from the start state\<close>

lemma find_bucket_8192: "find_bucket 8192 0 = 20"
  by (simp add: find_bucket.simps c_Bucket_Sizes_def)

lemma find_size_8192: "find_size 8192 0 = 20"
  by (simp add: find_size.simps c_Bucket_Sizes_def)

lemma xmalloc_8192: "xmalloc fuel s 8192 = pop_bucket fuel s 20"
  by (simp add: xmalloc_def find_bucket_8192 c_Bucket_Sizes_def)

lemma ret_simps [simp]:
  "ret_ptr (Inr (p, s)) = p" "ret_state (Inr (p, s)) = s" "freed (Inr s) = s"
  by (simp_all add: ret_ptr_def ret_state_def freed_def)

lemma st0_first_8192:
  "alloc_run (Suc k) st0 8192 (Suc 0) = Inr (slot_ptr 20 (chunk 20) 1, first_claim st0 20 (chunk 20))"
  using pop_fresh [of 20 st0 "chunk 20" k] st0_cell [of 20]
  by (simp add: xmalloc_8192)

lemma slot1_nonzero: "slot_ptr 20 (chunk 20) 1 \<noteq> 0"
proof -
  have "unat (chunk 20) + 28202 < 2 ^ 64"
    using st0_cell(6) [of 20] by (simp add: c_MMAP_Chunks_def)
  from chunk_ptr_nonzero [OF this]
  have "chunk 20 + 28202 \<noteq> 0" by simp
  then have "28202 + chunk 20 \<noteq> 0" by (metis add.commute)
  then show ?thesis
    by (simp add: slot_ptr_def stride_of_def c_Bucket_Sizes_def)
qed


lemmas scenario_defs = xfree_def first_claim_def slot_ptr_def slot_of_def stride_of_def
  c_Bucket_Sizes_def c_MMAP_Chunks_def Let_def read_u32_def write_u32_def class_byte_eval
  parse_class find_size_8192 push_bucket_def push_offset_def slot_free_def
  pop_bucket_def bitmap_size_of_def lock_favorite_def claim_slot_def zero_header_def

text \<open>The second allocation from the same chunk, and the free of the first.\<close>

lemma st0_second_8192:
  "alloc_run (Suc k) st0 8192 (Suc (Suc 0)) =
     Inr (slot_ptr 20 (chunk 20) 2,
          (first_claim st0 20 (chunk 20))
            \<lparr>hdrs := (hdrs st0)(chunk 20 \<mapsto> \<lparr>size_byte = 13, next_page = 0, last_offset = 2,
                        bitmap = (replicate BITMAP_LONGS 0)[0 := 0x6000000000000000]\<rparr>),
             mem := (write_u32 (mem (first_claim st0 20 (chunk 20))) (slot_ptr 20 (chunk 20) 2 - 5)
                       (ucast (slot_ptr 20 (chunk 20) 2 - 5 - chunk 20)))
                    (slot_ptr 20 (chunk 20) 2 - 1 := 0)\<rparr>)"
  using st0_cell [of 20]
  by (simp add: st0_first_8192 xmalloc_8192 scenario_defs)





lemma st0_brk_bound: "unat (brk st0) + 9 < 2 ^ 64"
  by (simp add: st0_os)

lemma st0_mmap_12288:
  "fst (os_mmap (page_round (unat (10000 :: size_t) + 9)) st0) = brk st0"
  by (simp add: os_mmap_def st0_os page_round_def)

lemma st0_alloc_10000:
  "\<exists>s'. xmalloc fuel st0 10000 = Inr (brk st0 + 9, s') \<and>
     mem s' (brk st0 + 8) = c_Non_Bucket_Flag \<and> read_u64 (mem s') (brk st0) = 12288"
proof -
  obtain s1 where "os_mmap (page_round (unat (10000 :: size_t) + 9)) st0 = (brk st0, s1)"
    using st0_mmap_12288 by (cases "os_mmap (page_round (unat (10000 :: size_t) + 9)) st0") simp
  from mmap_non_bucket_layout [OF _ _ this] st0_brk show ?thesis
    by (auto simp: xmalloc_def)
qed

subsection \<open>What an allocation that returns has taken\<close>








subsection \<open>The run \<open>xmalloc(200)\<close>, \<open>xrealloc(p, 100)\<close>\<close>










subsection \<open>Filling the chunk of class 8192\<close>

lemma bit_msb_shift: "j < 64 \<Longrightarrow> bit (drop_bit j c_64_MSB_High) n \<longleftrightarrow> n + j = 63"
proof -
  assume j: "j < 64"
  have e: "c_64_MSB_High = (2 ^ 63 :: 64 word)" by simp
  have "bit (drop_bit j (2 ^ 63 :: 64 word)) n \<longleftrightarrow> bit (2 ^ 63 :: 64 word) (j + n)"
    by (simp only: bit_drop_bit_eq comp_def)
  also have "\<dots> \<longleftrightarrow> j + n < 64 \<and> j + n = 63"
    by (simp only: bit_exp_iff possible_bit_word) simp
  also have "\<dots> \<longleftrightarrow> n + j = 63"
    by auto
  finally show ?thesis
    by (simp only: e)
qed

lemma length_set_slot [simp]: "length (set_slot bm i) = length bm"
  by (simp add: set_slot_def)

lemma length_clear_slot [simp]: "length (clear_slot bm i) = length bm"
  by (simp add: clear_slot_def)

lemma length_filled [simp]: "length (filled k) = BITMAP_LONGS"
  by (induction k) simp_all

lemma same_slot: "i div 64 = j div 64 \<Longrightarrow> i mod 64 = j mod 64 \<Longrightarrow> i = (j :: nat)"
  by (metis div_mult_mod_eq)

lemma mask_bit:
  "bit (drop_bit (i mod 64) c_64_MSB_High) (63 - j mod 64) \<longleftrightarrow> i mod 64 = j mod 64"
proof -
  have "i mod 64 < 64" "j mod 64 < 64" by simp_all
  then have "63 - j mod 64 + i mod 64 = 63 \<longleftrightarrow> i mod 64 = j mod 64"
    by arith
  then show ?thesis
    by (simp add: bit_msb_shift)
qed

lemma taken_set_slot:
  assumes "i div 64 < length bm"
  shows "taken (set_slot bm i) j \<longleftrightarrow> j = i \<or> taken bm j"
proof (cases "j div 64 = i div 64")
  case True
  then have "i mod 64 = j mod 64 \<longleftrightarrow> j = i"
    using same_slot [of i j] by auto
  with True assms show ?thesis
    by (simp add: taken_def set_slot_def bit_or_iff mask_bit disj_commute)
next
  case False
  then have "j \<noteq> i" by auto
  with False show ?thesis
    by (simp add: taken_def set_slot_def)
qed

lemma taken_clear_slot:
  assumes "i div 64 < length bm"
  shows "taken (clear_slot bm i) j \<longleftrightarrow> j \<noteq> i \<and> taken bm j"
proof (cases "j div 64 = i div 64")
  case True
  then have "i mod 64 = j mod 64 \<longleftrightarrow> j = i"
    using same_slot [of i j] by auto
  with True assms show ?thesis
    by (auto simp add: taken_def clear_slot_def bit_and_iff bit_not_iff mask_bit)
next
  case False
  then have "j \<noteq> i" by auto
  with False show ?thesis
    by (simp add: taken_def clear_slot_def)
qed

lemma taken_filled:
  assumes "k < 64 * BITMAP_LONGS" "j < 64 * BITMAP_LONGS"
  shows "taken (filled k) j \<longleftrightarrow> 1 \<le> j \<and> j \<le> k"
  using assms(1)
proof (induction k)
  case 0
  from assms(2) have "j div 64 < BITMAP_LONGS"
    by (simp add: div_less_iff_less_mult)
  then show ?case by (simp add: taken_def)
next
  case (Suc k)
  then have k: "k < 64 * BITMAP_LONGS" by linarith
  from Suc.prems have "Suc k div 64 < BITMAP_LONGS"
    by (simp add: div_less_iff_less_mult)
  then have "Suc k div 64 < length (filled k)"
    by (simp only: length_filled)
  from taken_set_slot [OF this]
  have "taken (filled (Suc k)) j \<longleftrightarrow> j = Suc k \<or> taken (filled k) j"
    by (simp only: filled.simps)
  also have "\<dots> \<longleftrightarrow> j = Suc k \<or> (1 \<le> j \<and> j \<le> k)"
    by (simp only: Suc.IH [OF k])
  also have "\<dots> \<longleftrightarrow> 1 \<le> j \<and> j \<le> Suc k"
    by linarith
  finally show ?case .
qed

text \<open>The two tests of the scan, read on the bits.\<close>

lemma mask_test:
  assumes "sh < 64"
  shows "(w AND drop_bit sh c_64_MSB_High = 0) \<longleftrightarrow> \<not> bit w (63 - sh)"
proof
  assume z: "w AND drop_bit sh c_64_MSB_High = 0"
  show "\<not> bit w (63 - sh)"
  proof
    assume "bit w (63 - sh)"
    then have "bit (w AND drop_bit sh c_64_MSB_High) (63 - sh)"
      using assms by (simp add: bit_and_iff bit_msb_shift)
    with z show False by simp
  qed
next
  assume n: "\<not> bit w (63 - sh)"
  show "w AND drop_bit sh c_64_MSB_High = 0"
  proof (rule bit_word_eqI)
    fix n assume "n < LENGTH(64)"
    have "n + sh = 63 \<Longrightarrow> n = 63 - sh" by arith
    then show "bit (w AND drop_bit sh c_64_MSB_High) n = bit (0 :: 64 word) n"
      using assms n by (auto simp: bit_and_iff bit_msb_shift)
  qed
qed

lemma slot_test:
  assumes "sh < 64"
  shows "(bm ! w AND drop_bit sh c_64_MSB_High = 0) \<longleftrightarrow> \<not> taken bm (64 * w + sh)"
  using assms by (simp add: mask_test taken_def)

lemma full_test: "(bm ! w = c_64_All_High) \<longleftrightarrow> (\<forall>sh<64. taken bm (64 * w + sh))"
proof
  assume "bm ! w = c_64_All_High"
  then have "bm ! w = - 1" by simp
  then show "\<forall>sh<64. taken bm (64 * w + sh)"
    by (auto simp: taken_def)
next
  assume a: "\<forall>sh<64. taken bm (64 * w + sh)"
  have "bm ! w = - 1"
  proof (rule bit_word_eqI)
    fix n assume "n < LENGTH(64)"
    then have n: "n < 64" by simp
    define m where "m = 63 - n"
    have m: "m < 64" "63 - m = n" using n by (simp_all add: m_def)
    have "taken bm (64 * w + m)" using a m(1) by simp
    then have "bit (bm ! w) (63 - m)"
      using m(1) by (simp add: taken_def)
    then show "bit (bm ! w) n = bit (- 1 :: 64 word) n"
      using n by (simp add: m(2))
  qed
  then show "bm ! w = c_64_All_High" by simp
qed

lemma unat_index:
  assumes "unat (off :: 32 word) < 64 * BITMAP_LONGS"
  shows "unat (ucast (off div 64) :: 16 word) = unat off div 64"
    and "unat (ucast (off mod 64) :: 8 word) = unat off mod 64"
    and "((ucast (off mod 64) :: 8 word) = 0) = (unat off mod 64 = 0)"
proof -
  have d: "unat (off div 64) = unat off div 64" and m: "unat (off mod 64) = unat off mod 64"
    by (simp_all add: unat_div unat_mod)
  have "unat off div 64 < 2497" using assms by (simp add: div_less_iff_less_mult)
  then show 1: "unat (ucast (off div 64) :: 16 word) = unat off div 64"
    by (simp add: unat_ucast_small d)
  have "unat off mod 64 < 64" by simp
  then show 2: "unat (ucast (off mod 64) :: 8 word) = unat off mod 64"
    by (simp add: unat_ucast_small m)
  show "((ucast (off mod 64) :: 8 word) = 0) = (unat off mod 64 = 0)"
    by (simp only: unat_eq_zero [symmetric] 2)
qed

lemma scan_step:
  assumes "off \<noteq> last_offset h" "unat off < 64 * BITMAP_LONGS"
  shows "scan_slots (Suc n) h bitmap_size off =
     (if unat off mod 64 = 0 \<and> (\<forall>sh<64. taken (bitmap h) (unat off + sh))
      then scan_slots n h bitmap_size (off + 64)
      else if \<not> taken (bitmap h) (unat off) then Inr (Some off)
      else scan_slots n h bitmap_size ((off + 1) mod bitmap_size))"
proof -
  let ?i = "unat off"
  note ix = unat_index [OF assms(2)]
  have idx: "\<not> BITMAP_LONGS \<le> ?i div 64"
    using assms(2) by (simp add: div_less_iff_less_mult not_le)
  have i: "64 * (?i div 64) + ?i mod 64 = ?i" by simp
  have test: "(bitmap h ! (?i div 64) AND drop_bit (?i mod 64) c_64_MSB_High = 0) =
      (\<not> taken (bitmap h) ?i)"
    using slot_test [of "?i mod 64" "bitmap h" "?i div 64"] by (simp only: i)
  have full: "(?i mod 64 = 0 \<and> bitmap h ! (?i div 64) = c_64_All_High) =
      (?i mod 64 = 0 \<and> (\<forall>sh<64. taken (bitmap h) (?i + sh)))"
  proof (cases "?i mod 64 = 0")
    case True
    then have "64 * (?i div 64) = ?i" using i by simp
    with True show ?thesis
      using full_test [of "bitmap h" "?i div 64"] by simp
  next
    case False
    then show ?thesis by simp
  qed
  show ?thesis
    using assms(1) idx
    by (simp only: scan_slots.simps Let_def ix test full if_False)
qed

lemma pop_bucket_found:
  assumes "c < BUCKET_NUM" "\<not> busy s c (unat (t_Favorite_Arenas s c))"
    "g_Bucket_Stacks s c (unat (t_Favorite_Arenas s c)) = X" "X \<noteq> 0" "hdrs s X = Some h"
    "scan_slots (Suc m) h (bitmap_size_of c) ((last_offset h + 1) mod bitmap_size_of c) =
       Inr (Some off)"
    "unat off < 64 * BITMAP_LONGS"
  shows "pop_bucket (Suc m) s c =
    Inr (slot_ptr c X off,
         s\<lparr>hdrs := (hdrs s)(X \<mapsto> h\<lparr>last_offset := off, bitmap := set_slot (bitmap h) (unat off)\<rparr>),
           mem := (write_u32 (mem s) (slot_ptr c X off - 5) (ucast (slot_ptr c X off - 5 - X)))
                    (slot_ptr c X off - 1 := t_Favorite_Arenas s c)\<rparr>)"
proof -
  note ix = unat_index [OF assms(7)]
  have idx: "\<not> BITMAP_LONGS \<le> unat off div 64"
    using assms(7) by (simp add: div_less_iff_less_mult not_le)
  have lock: "lock_favorite s c = s"
    using assms(2) by (simp add: lock_favorite_def)
  have size: "unat (bitmap_size_of c) \<le> BITMAP_LONGS * 64"
    using bitmap_size_bound [OF assms(1)] by simp
  have walk: "walk_headers (Suc m) (Suc m) s X (bitmap_size_of c) = Inr (Some (X, off))"
    using assms(4,5,6) by simp
  have n: "X + 20000 + ucast (off * stride_of c) = 20000 + (X + ucast (off * stride_of c))"
    by simp
  show ?thesis
    using assms(1,3,5) size idx
    by (simp add: pop_bucket_def lock Let_def walk claim_slot_def ix set_slot_def slot_ptr_def n
        del: walk_headers.simps scan_slots.simps)
qed

text \<open>Allocating the slots of the chunk of class 8192 one after the other.\<close>

lemma word32_of_nat:
  assumes "k < 2 ^ 32"
  shows "unat (of_nat k :: 32 word) = k"
  using assms by (simp add: unat_of_nat)

lemma next_cursor:
  assumes "Suc k < 8184"
  shows "((of_nat k :: 32 word) + 1) mod bitmap_size_of 20 = of_nat (Suc k)"
    and "(of_nat (Suc k) :: 32 word) \<noteq> of_nat k"
    and "unat (of_nat (Suc k) :: 32 word) = Suc k"
proof -
  have s: "bitmap_size_of 20 = 8184"
    by (simp add: bitmap_size_of_def c_Bucket_Sizes_def c_MMAP_Chunks_def)
  have u1: "unat (of_nat (Suc k) :: 32 word) = Suc k"
    by (rule word32_of_nat) (use assms in simp)
  have u2: "unat (of_nat k :: 32 word) = k"
    by (rule word32_of_nat) (use assms in simp)
  note u = u1 u2
  show "unat (of_nat (Suc k) :: 32 word) = Suc k" by (rule u(1))
  have "(of_nat (Suc k) :: 32 word) < 8184"
    using assms by (simp only: word_less_nat_alt u) simp
  then have "(of_nat (Suc k) :: 32 word) mod 8184 = of_nat (Suc k)"
    by (rule mod_word_less)
  moreover have "(of_nat k :: 32 word) + 1 = of_nat (Suc k)"
    by simp
  ultimately show "((of_nat k :: 32 word) + 1) mod bitmap_size_of 20 = of_nat (Suc k)"
    by (simp only: s)
  show "(of_nat (Suc k) :: 32 word) \<noteq> of_nat k"
    using u by (metis n_not_Suc_n)
qed

lemma fill_step:
  assumes "g_Bucket_Stacks s 20 0 = X" "X \<noteq> 0" "t_Favorite_Arenas s 20 = 0" "\<not> busy s 20 0"
    "hdrs s X = Some (fill_header (of_nat k) (filled k))" "Suc k < 8184"
  shows "xmalloc (Suc m) s 8192 =
    Inr (slot_ptr 20 X (of_nat (Suc k)),
         s\<lparr>hdrs := (hdrs s)(X \<mapsto> fill_header (of_nat (Suc k)) (filled (Suc k))),
           mem := (write_u32 (mem s) (slot_ptr 20 X (of_nat (Suc k)) - 5)
                     (ucast (slot_ptr 20 X (of_nat (Suc k)) - 5 - X)))
                  (slot_ptr 20 X (of_nat (Suc k)) - 1 := 0)\<rparr>)"
proof -
  let ?h = "fill_header (of_nat k) (filled k)"
  let ?o = "of_nat (Suc k) :: 32 word"
  note nc = next_cursor [OF assms(6)]
  have lo: "last_offset ?h = of_nat k" "bitmap ?h = filled k"
    by (simp_all add: fill_header_def)
  have range: "unat ?o < 64 * BITMAP_LONGS"
    unfolding nc(3) using assms(6) by simp
  have free: "\<not> taken (filled k) (Suc k)"
    using assms(6) taken_filled [of k "Suc k"] by simp
  have "scan_slots (Suc m) ?h (bitmap_size_of 20) ?o =
      (if unat ?o mod 64 = 0 \<and> (\<forall>sh<64. taken (bitmap ?h) (unat ?o + sh))
       then scan_slots m ?h (bitmap_size_of 20) (?o + 64)
       else if \<not> taken (bitmap ?h) (unat ?o) then Inr (Some ?o)
       else scan_slots m ?h (bitmap_size_of 20) ((?o + 1) mod bitmap_size_of 20))"
    by (rule scan_step) (use range in \<open>simp_all add: lo nc(2)\<close>)
  moreover have "\<not> (\<forall>sh<64. taken (bitmap ?h) (unat ?o + sh))"
  proof
    assume "\<forall>sh<64. taken (bitmap ?h) (unat ?o + sh)"
    then have "taken (bitmap ?h) (unat ?o + 0)" by (elim allE [of _ 0]) simp
    with free show False by (simp only: lo nc(3)) simp
  qed
  ultimately have "scan_slots (Suc m) ?h (bitmap_size_of 20) ?o = Inr (Some ?o)"
    using free by (simp only: lo nc(3)) simp
  then have scan: "scan_slots (Suc m) ?h (bitmap_size_of 20)
      ((last_offset ?h + 1) mod bitmap_size_of 20) = Inr (Some ?o)"
    by (simp only: lo nc(1))
  have "pop_bucket (Suc m) s 20 =
    Inr (slot_ptr 20 X ?o,
         s\<lparr>hdrs := (hdrs s)(X \<mapsto> ?h\<lparr>last_offset := ?o, bitmap := set_slot (bitmap ?h) (unat ?o)\<rparr>),
           mem := (write_u32 (mem s) (slot_ptr 20 X ?o - 5) (ucast (slot_ptr 20 X ?o - 5 - X)))
                    (slot_ptr 20 X ?o - 1 := t_Favorite_Arenas s 20)\<rparr>)"
    using assms(1-5) scan range
    by (intro pop_bucket_found) simp_all
  moreover have "?h\<lparr>last_offset := ?o, bitmap := set_slot (bitmap ?h) (unat ?o)\<rparr> =
      fill_header ?o (filled (Suc k))"
    unfolding nc(3) by (simp add: fill_header_def)
  ultimately show ?thesis
    using assms(3) by (simp add: xmalloc_8192)
qed

text \<open>The run that takes the slots 1, 2, ... of the chunk of class 8192 of the start state.\<close>

lemma st0_fill_header:
  "hdrs st0 (chunk 20) = Some (fill_header 0 (filled 0))"
  using st0_cell(2) [of 20] by (simp add: fill_header_def zero_header_def class_byte_eval)

lemma fill_run:
  assumes "k < 8184"
  shows "g_Bucket_Stacks (ret_state (alloc_run (Suc m) st0 8192 k)) 20 0 = chunk 20 \<and>
     t_Favorite_Arenas (ret_state (alloc_run (Suc m) st0 8192 k)) 20 = 0 \<and>
     \<not> busy (ret_state (alloc_run (Suc m) st0 8192 k)) 20 0 \<and>
     hdrs (ret_state (alloc_run (Suc m) st0 8192 k)) (chunk 20) =
       Some (fill_header (of_nat k) (filled k)) \<and>
     (0 < k \<longrightarrow> ret_ptr (alloc_run (Suc m) st0 8192 k) = slot_ptr 20 (chunk 20) (of_nat k))"
  using assms
proof (induction k)
  case 0
  show ?case
    using st0_cell [of 20] st0_fill_header by simp
next
  case (Suc k)
  let ?s = "ret_state (alloc_run (Suc m) st0 8192 k)"
  from Suc have I: "g_Bucket_Stacks ?s 20 0 = chunk 20" "t_Favorite_Arenas ?s 20 = 0"
    "\<not> busy ?s 20 0" "hdrs ?s (chunk 20) = Some (fill_header (of_nat k) (filled k))"
    by simp_all
  have X: "chunk 20 \<noteq> 0" using st0_cell(1) [of 20] by simp
  note step = fill_step [OF I(1) X I(2,3,4) Suc.prems, of m]
  have run: "alloc_run (Suc m) st0 8192 (Suc k) = xmalloc (Suc m) ?s 8192"
    by simp
  show ?case
    unfolding run step ret_simps using I(1,2,3) by simp
qed

lemma scan_found:
  assumes "off \<noteq> last_offset h" "unat off < 64 * BITMAP_LONGS" "\<not> taken (bitmap h) (unat off)"
  shows "scan_slots (Suc n) h bs off = Inr (Some off)"
proof -
  have "\<not> (\<forall>sh<64. taken (bitmap h) (unat off + sh))"
  proof
    assume "\<forall>sh<64. taken (bitmap h) (unat off + sh)"
    then have "taken (bitmap h) (unat off + 0)" by (elim allE [of _ 0]) simp
    with assms(3) show False by simp
  qed
  then have "\<not> (unat off mod 64 = 0 \<and> (\<forall>sh<64. taken (bitmap h) (unat off + sh)))"
    by simp
  then show ?thesis
    by (simp only: scan_step [OF assms(1,2)] assms(3) if_False if_True not_False_eq_True)
qed

lemma scan_next:
  assumes "off \<noteq> last_offset h" "unat off < 64 * BITMAP_LONGS" "taken (bitmap h) (unat off)"
    "\<not> (unat off mod 64 = 0 \<and> (\<forall>sh<64. taken (bitmap h) (unat off + sh)))"
  shows "scan_slots (Suc n) h bs off = scan_slots n h bs ((off + 1) mod bs)"
  by (simp only: scan_step [OF assms(1,2)] assms(3,4) if_False not_True_eq_False)

lemma scan_skip:
  assumes "off \<noteq> last_offset h" "unat off < 64 * BITMAP_LONGS"
    "unat off mod 64 = 0 \<and> (\<forall>sh<64. taken (bitmap h) (unat off + sh))"
  shows "scan_slots (Suc n) h bs off = scan_slots n h bs (off + 64)"
  unfolding scan_step [OF assms(1,2)] using assms(3) by (rule if_P)

lemma length_all_taken [simp]: "length all_taken = BITMAP_LONGS"
  by (simp add: all_taken_def)

lemma taken_all:
  assumes "j < 64 * BITMAP_LONGS"
  shows "taken all_taken j \<longleftrightarrow> j \<le> 8183"
    and "taken (clear_slot all_taken 4) j \<longleftrightarrow> j \<noteq> 4 \<and> j \<le> 8183"
    and "taken (set_slot (clear_slot all_taken 4) 4) j \<longleftrightarrow> j \<le> 8183"
proof -
  have f: "taken (filled 8183) j \<longleftrightarrow> 1 \<le> j \<and> j \<le> 8183"
    using assms by (intro taken_filled) simp_all
  show a: "taken all_taken j \<longleftrightarrow> j \<le> 8183"
    unfolding all_taken_def by (subst taken_set_slot) (use f in auto)
  show c: "taken (clear_slot all_taken 4) j \<longleftrightarrow> j \<noteq> 4 \<and> j \<le> 8183"
    by (subst taken_clear_slot) (use a in auto)
  show "taken (set_slot (clear_slot all_taken 4) 4) j \<longleftrightarrow> j \<le> 8183"
    by (subst taken_set_slot) (use c in auto)
qed

lemma size_20: "bitmap_size_of 20 = 8184"
  by (simp add: bitmap_size_of_def c_Bucket_Sizes_def c_MMAP_Chunks_def)

text \<open>The allocation that takes the last free slot, slot 0.\<close>

lemma fill_wrap:
  assumes "g_Bucket_Stacks s 20 0 = X" "X \<noteq> 0" "t_Favorite_Arenas s 20 = 0" "\<not> busy s 20 0"
    "hdrs s X = Some (fill_header 8183 (filled 8183))"
  shows "xmalloc (Suc m) s 8192 =
    Inr (slot_ptr 20 X 0,
         s\<lparr>hdrs := (hdrs s)(X \<mapsto> fill_header 0 all_taken),
           mem := (write_u32 (mem s) (slot_ptr 20 X 0 - 5) (ucast (slot_ptr 20 X 0 - 5 - X)))
                  (slot_ptr 20 X 0 - 1 := 0)\<rparr>)"
proof -
  let ?h = "fill_header 8183 (filled 8183)"
  have lo: "last_offset ?h = 8183" "bitmap ?h = filled 8183"
    by (simp_all add: fill_header_def)
  have free: "\<not> taken (filled 8183) 0"
    using taken_filled [of 8183 0] by simp
  have "scan_slots (Suc m) ?h (bitmap_size_of 20) 0 = Inr (Some 0)"
    by (rule scan_found) (use free in \<open>simp_all add: lo\<close>)
  then have scan: "scan_slots (Suc m) ?h (bitmap_size_of 20)
      ((last_offset ?h + 1) mod bitmap_size_of 20) = Inr (Some 0)"
    by (simp add: lo size_20)
  have "pop_bucket (Suc m) s 20 =
    Inr (slot_ptr 20 X 0,
         s\<lparr>hdrs := (hdrs s)(X \<mapsto> ?h\<lparr>last_offset := 0, bitmap := set_slot (bitmap ?h) (unat (0 :: 32 word))\<rparr>),
           mem := (write_u32 (mem s) (slot_ptr 20 X 0 - 5) (ucast (slot_ptr 20 X 0 - 5 - X)))
                    (slot_ptr 20 X 0 - 1 := t_Favorite_Arenas s 20)\<rparr>)"
    using assms(1-5) scan
    by (intro pop_bucket_found) simp_all
  moreover have "?h\<lparr>last_offset := 0, bitmap := set_slot (bitmap ?h) (unat (0 :: 32 word))\<rparr> =
      fill_header 0 all_taken"
    by (simp add: fill_header_def all_taken_def)
  ultimately show ?thesis
    using assms(3) by (simp add: xmalloc_8192)
qed

text \<open>The free of the pointer to slot 0 clears the bit of slot 4.\<close>

lemma free_slot_0:
  assumes "hdrs s 0x8C000000 = Some (fill_header 0 all_taken)"
    "mem s 0x8C004E24 = 0" "read_u32 (mem s) 0x8C004E20 = 20000"
  shows "xfree s 0x8C004E25 =
    Inr (s\<lparr>hdrs := (hdrs s)(0x8C000000 \<mapsto> fill_header 0 (clear_slot all_taken 4))\<rparr>)"
  using assms
  by (simp add: xfree_def Let_def parse_class find_size_8192 push_bucket_def push_offset_def
      stride_of_def c_Bucket_Sizes_def fill_header_def clear_slot_def)

text \<open>The allocation after the free: the scan passes the slots 1, 2, 3 and takes slot 4.\<close>

lemma dup_alloc:
  assumes "g_Bucket_Stacks s 20 0 = X" "X \<noteq> 0" "t_Favorite_Arenas s 20 = 0" "\<not> busy s 20 0"
    "hdrs s X = Some (fill_header 0 (clear_slot all_taken 4))"
  shows "xmalloc (Suc (Suc (Suc (Suc m)))) s 8192 =
    Inr (slot_ptr 20 X 4,
         s\<lparr>hdrs := (hdrs s)(X \<mapsto> fill_header 4 (set_slot (clear_slot all_taken 4) 4)),
           mem := (write_u32 (mem s) (slot_ptr 20 X 4 - 5) (ucast (slot_ptr 20 X 4 - 5 - X)))
                  (slot_ptr 20 X 4 - 1 := 0)\<rparr>)"
proof -
  let ?h = "fill_header 0 (clear_slot all_taken 4)"
  let ?bs = "bitmap_size_of 20"
  have lo: "last_offset ?h = 0" "bitmap ?h = clear_slot all_taken 4"
    by (simp_all add: fill_header_def)
  have t: "taken (bitmap ?h) 1" "taken (bitmap ?h) 2" "taken (bitmap ?h) 3"
    "\<not> taken (bitmap ?h) 4"
    unfolding lo by (simp_all add: taken_all(2))
  have s1: "scan_slots (Suc (Suc (Suc (Suc m)))) ?h ?bs 1 = scan_slots (Suc (Suc (Suc m))) ?h ?bs 2"
    using scan_next [of 1 ?h "Suc (Suc (Suc m))" ?bs] t(1) by (simp add: lo(1) size_20)
  have s2: "scan_slots (Suc (Suc (Suc m))) ?h ?bs 2 = scan_slots (Suc (Suc m)) ?h ?bs 3"
    using scan_next [of 2 ?h "Suc (Suc m)" ?bs] t(2) by (simp add: lo(1) size_20)
  have s3: "scan_slots (Suc (Suc m)) ?h ?bs 3 = scan_slots (Suc m) ?h ?bs 4"
    using scan_next [of 3 ?h "Suc m" ?bs] t(3) by (simp add: lo(1) size_20)
  have s4: "scan_slots (Suc m) ?h ?bs 4 = Inr (Some 4)"
    using scan_found [of 4 ?h m ?bs] t(4) by (simp add: lo(1))
  have c: "(last_offset ?h + 1) mod ?bs = 1"
    by (simp add: lo(1) size_20)
  have scan: "scan_slots (Suc (Suc (Suc (Suc m)))) ?h ?bs ((last_offset ?h + 1) mod ?bs) =
      Inr (Some 4)"
    by (simp only: c s1 s2 s3 s4)
  have "pop_bucket (Suc (Suc (Suc (Suc m)))) s 20 =
    Inr (slot_ptr 20 X 4,
         s\<lparr>hdrs := (hdrs s)(X \<mapsto> ?h\<lparr>last_offset := 4, bitmap := set_slot (bitmap ?h) (unat (4 :: 32 word))\<rparr>),
           mem := (write_u32 (mem s) (slot_ptr 20 X 4 - 5) (ucast (slot_ptr 20 X 4 - 5 - X)))
                    (slot_ptr 20 X 4 - 1 := t_Favorite_Arenas s 20)\<rparr>)"
    using assms(1-5) scan
    by (intro pop_bucket_found) simp_all
  moreover have "?h\<lparr>last_offset := 4, bitmap := set_slot (bitmap ?h) (unat (4 :: 32 word))\<rparr> =
      fill_header 4 (set_slot (clear_slot all_taken 4) 4)"
    by (simp add: fill_header_def)
  ultimately show ?thesis
    using assms(3) by (simp add: xmalloc_8192)
qed

text \<open>
  With every slot taken and the cursor at 4, the scan runs 5, ..., 63, 64, 128, ..., 8128,
  8129, ..., 8183, 0, 64, ...: the step from 0 to 64 passes 4, and the scan never ends.
\<close>

lemma cursor_word:
  assumes "i < 8184"
  shows "unat (of_nat i :: 32 word) = i"
    and "((of_nat i :: 32 word) + 1) mod 8184 = of_nat ((i + 1) mod 8184)"
    and "(of_nat i :: 32 word) + 64 = of_nat (i + 64)"
proof -
  show u: "unat (of_nat i :: 32 word) = i"
    by (rule word32_of_nat) (use assms in simp)
  have u1: "unat (of_nat (i + 1) :: 32 word) = i + 1"
    by (rule word32_of_nat) (use assms in simp)
  have u2: "unat (of_nat ((i + 1) mod 8184) :: 32 word) = (i + 1) mod 8184"
    by (rule word32_of_nat) (use assms in simp)
  have "unat ((of_nat (i + 1) :: 32 word) mod 8184) = (i + 1) mod 8184"
    by (simp only: unat_mod u1) simp
  then have "(of_nat (i + 1) :: 32 word) mod 8184 = of_nat ((i + 1) mod 8184)"
    by (simp only: word_unat_eq_iff u2)
  moreover have "(of_nat i :: 32 word) + 1 = of_nat (i + 1)"
    by simp
  ultimately show "((of_nat i :: 32 word) + 1) mod 8184 = of_nat ((i + 1) mod 8184)"
    by (simp only:)
  show "(of_nat i :: 32 word) + 64 = of_nat (i + 64)"
    by simp
qed

lemma scan_diverges:
  assumes "last_offset h = 4" "\<And>j. j < 64 * BITMAP_LONGS \<Longrightarrow> taken (bitmap h) j \<longleftrightarrow> j \<le> 8183"
    "(5 \<le> i \<and> i < 64) \<or> (i mod 64 = 0 \<and> i \<le> 8128) \<or> (8128 \<le> i \<and> i < 8184)"
  shows "scan_slots n h 8184 (of_nat i) = Inl Out_of_fuel"
  using assms(3)
proof (induction n arbitrary: i)
  case 0
  show ?case by simp
next
  case (Suc n)
  let ?off = "of_nat i :: 32 word"
  from Suc.prems have i: "i < 8184" "i \<noteq> 4"
    by auto
  note w = cursor_word [OF i(1)]
  have ne: "?off \<noteq> last_offset h"
  proof
    assume "?off = last_offset h"
    then have "unat ?off = unat (4 :: 32 word)" by (simp add: assms(1))
    with i(2) show False by (simp add: w(1))
  qed
  have range: "unat ?off < 64 * BITMAP_LONGS"
    using i(1) by (simp add: w(1))
  have tk: "taken (bitmap h) (unat ?off)"
    using i(1) by (simp add: w(1) assms(2))
  show ?case
  proof (cases "i mod 64 = 0 \<and> i < 8128")
    case True
    then have "i + 63 < 8184"
      by presburger
    then have "\<forall>sh<64. taken (bitmap h) (unat ?off + sh)"
      by (simp add: w(1) assms(2))
    with True have "scan_slots (Suc n) h 8184 ?off = scan_slots n h 8184 (?off + 64)"
      by (intro scan_skip ne range) (simp add: w(1))
    also have "\<dots> = scan_slots n h 8184 (of_nat (i + 64))"
      by (simp only: w(3))
    also have "\<dots> = Inl Out_of_fuel"
    proof (rule Suc.IH)
      from True show "(5 \<le> i + 64 \<and> i + 64 < 64) \<or> ((i + 64) mod 64 = 0 \<and> i + 64 \<le> 8128) \<or>
          (8128 \<le> i + 64 \<and> i + 64 < 8184)"
        by presburger
    qed
    finally show ?thesis .
  next
    case False
    have "\<not> (unat ?off mod 64 = 0 \<and> (\<forall>sh<64. taken (bitmap h) (unat ?off + sh)))"
    proof
      assume a: "unat ?off mod 64 = 0 \<and> (\<forall>sh<64. taken (bitmap h) (unat ?off + sh))"
      then have "i mod 64 = 0"
        by (simp add: w(1))
      with False i(1) have "i = 8128"
        by presburger
      moreover from a have "taken (bitmap h) (unat ?off + 56)"
        by (elim conjE allE [of _ 56]) simp
      ultimately show False
        by (simp add: w(1) assms(2))
    qed
    then have "scan_slots (Suc n) h 8184 ?off = scan_slots n h 8184 ((?off + 1) mod 8184)"
      by (intro scan_next ne range tk)
    also have "\<dots> = scan_slots n h 8184 (of_nat ((i + 1) mod 8184))"
      by (simp only: w(2))
    also have "\<dots> = Inl Out_of_fuel"
    proof (rule Suc.IH)
      from False Suc.prems
      consider "5 \<le> i \<and> i < 63" | "i = 63" | "8128 \<le> i \<and> i < 8183" | "i = 8183"
        by arith
      then show "(5 \<le> (i + 1) mod 8184 \<and> (i + 1) mod 8184 < 64) \<or>
          (((i + 1) mod 8184) mod 64 = 0 \<and> (i + 1) mod 8184 \<le> 8128) \<or>
          (8128 \<le> (i + 1) mod 8184 \<and> (i + 1) mod 8184 < 8184)"
        by cases simp_all
    qed
    finally show ?thesis .
  qed
qed

lemma alloc_diverges:
  assumes "g_Bucket_Stacks s 20 0 = X" "X \<noteq> 0" "t_Favorite_Arenas s 20 = 0" "\<not> busy s 20 0"
    "hdrs s X = Some (fill_header 4 (set_slot (clear_slot all_taken 4) 4))"
  shows "xmalloc fuel s 8192 = Inl (Out_of_fuel, s)"
proof -
  let ?h = "fill_header 4 (set_slot (clear_slot all_taken 4) 4)"
  have lo: "last_offset ?h = 4" "bitmap ?h = set_slot (clear_slot all_taken 4) 4"
    by (simp_all add: fill_header_def)
  have lock: "lock_favorite s 20 = s"
    using assms(3,4) by (simp add: lock_favorite_def)
  have scan: "scan_slots n ?h 8184 5 = Inl Out_of_fuel" for n
    using scan_diverges [of ?h 5 n] by (simp add: lo taken_all(3))
  have walk: "walk_headers fuel n s X 8184 = Inl Out_of_fuel" for n
    using assms(2,5) by (cases fuel) (simp_all add: scan lo(1) del: scan_slots.simps)
  show ?thesis
    using assms(1,3)
    by (simp add: xmalloc_8192 pop_bucket_def size_20 lock walk Let_def
        del: walk_headers.simps scan_slots.simps)
qed

lemma slot_ptrs_20:
  "slot_ptr 20 (chunk 20) 0 = 0x8C004E25" "slot_ptr 20 (chunk 20) 4 = 0x8C00CE39"
  by (simp_all add: slot_ptr_def stride_of_def c_Bucket_Sizes_def st0_chunks)

lemma alloc_run_step:
  "0 < k \<Longrightarrow> alloc_run f s n k = xmalloc f (ret_state (alloc_run f s n (k - 1))) n"
  by (cases k) simp_all

lemma fourth_alloc:
  "alloc_run 4 st0 8192 4 = Inr (slot_ptr 20 (chunk 20) 4, ret_state (alloc_run 4 st0 8192 4))"
proof -
  have X: "chunk 20 \<noteq> 0" using st0_cell(1) [of 20] by simp
  from fill_run [of 3 3]
  have I: "g_Bucket_Stacks (ret_state (alloc_run 4 st0 8192 3)) 20 0 = chunk 20"
    "t_Favorite_Arenas (ret_state (alloc_run 4 st0 8192 3)) 20 = 0"
    "\<not> busy (ret_state (alloc_run 4 st0 8192 3)) 20 0"
    "hdrs (ret_state (alloc_run 4 st0 8192 3)) (chunk 20) = Some (fill_header (of_nat 3) (filled 3))"
    by simp_all
  have "alloc_run 4 st0 8192 4 = xmalloc (Suc 3) (ret_state (alloc_run 4 st0 8192 3)) 8192"
    using alloc_run_step [of 4 4 st0 8192] by simp
  also note fill_step [OF I(1) X I(2,3,4), of 3]
  finally show ?thesis
    by simp
qed

lemma full_run_result:
  "full_run = Inr (slot_ptr 20 (chunk 20) 0, ret_state full_run)"
  "g_Bucket_Stacks (ret_state full_run) 20 0 = chunk 20"
  "t_Favorite_Arenas (ret_state full_run) 20 = 0" "\<not> busy (ret_state full_run) 20 0"
  "hdrs (ret_state full_run) (chunk 20) = Some (fill_header 0 all_taken)"
  "mem (ret_state full_run) 0x8C004E24 = 0"
  "read_u32 (mem (ret_state full_run)) 0x8C004E20 = 20000"
proof -
  let ?s = "ret_state (alloc_run 4 st0 8192 8183)"
  have X: "chunk 20 \<noteq> 0" using st0_cell(1) [of 20] by simp
  from fill_run [of 8183 3]
  have I: "g_Bucket_Stacks ?s 20 0 = chunk 20" "t_Favorite_Arenas ?s 20 = 0"
    "\<not> busy ?s 20 0" "hdrs ?s (chunk 20) = Some (fill_header 8183 (filled 8183))"
    by simp_all
  have "full_run = xmalloc (Suc 3) ?s 8192"
    unfolding full_run_def using alloc_run_step [of 8184 4 st0 8192] by simp
  also note fill_wrap [OF I(1) X I(2,3,4), of 3]
  finally have r: "full_run =
    Inr (slot_ptr 20 (chunk 20) 0,
         ?s\<lparr>hdrs := (hdrs ?s)(chunk 20 \<mapsto> fill_header 0 all_taken),
           mem := (write_u32 (mem ?s) (slot_ptr 20 (chunk 20) 0 - 5)
                     (ucast (slot_ptr 20 (chunk 20) 0 - 5 - chunk 20)))
                  (slot_ptr 20 (chunk 20) 0 - 1 := 0)\<rparr>)" .
  show "full_run = Inr (slot_ptr 20 (chunk 20) 0, ret_state full_run)"
    unfolding r by simp
  show "g_Bucket_Stacks (ret_state full_run) 20 0 = chunk 20"
    "t_Favorite_Arenas (ret_state full_run) 20 = 0" "\<not> busy (ret_state full_run) 20 0"
    "hdrs (ret_state full_run) (chunk 20) = Some (fill_header 0 all_taken)"
    unfolding r using I by simp_all
  show "mem (ret_state full_run) 0x8C004E24 = 0"
    "read_u32 (mem (ret_state full_run)) 0x8C004E20 = 20000"
    unfolding r slot_ptrs_20 by (simp_all add: st0_chunks read_u32_def write_u32_def)
qed

lemma after_free_result:
  "xfree (ret_state full_run) (ret_ptr full_run) = Inr after_free"
  "g_Bucket_Stacks after_free 20 0 = chunk 20"
  "t_Favorite_Arenas after_free 20 = 0" "\<not> busy after_free 20 0"
  "hdrs after_free (chunk 20) = Some (fill_header 0 (clear_slot all_taken 4))"
proof -
  have p: "ret_ptr full_run = 0x8C004E25"
    by (subst full_run_result(1)) (simp add: slot_ptrs_20)
  have f: "xfree (ret_state full_run) 0x8C004E25 =
    Inr ((ret_state full_run)\<lparr>hdrs := (hdrs (ret_state full_run))
           (0x8C000000 \<mapsto> fill_header 0 (clear_slot all_taken 4))\<rparr>)"
    using full_run_result(5,6,7) by (intro free_slot_0) (simp_all add: st0_chunks)
  show "xfree (ret_state full_run) (ret_ptr full_run) = Inr after_free"
    unfolding after_free_def p f by simp
  show "g_Bucket_Stacks after_free 20 0 = chunk 20"
    "t_Favorite_Arenas after_free 20 = 0" "\<not> busy after_free 20 0"
    "hdrs after_free (chunk 20) = Some (fill_header 0 (clear_slot all_taken 4))"
    unfolding after_free_def p f using full_run_result(2,3,4) by (simp_all add: st0_chunks)
qed

lemma second_take_result:
  "second_take = Inr (slot_ptr 20 (chunk 20) 4, ret_state second_take)"
  "g_Bucket_Stacks (ret_state second_take) 20 0 = chunk 20"
  "t_Favorite_Arenas (ret_state second_take) 20 = 0" "\<not> busy (ret_state second_take) 20 0"
  "hdrs (ret_state second_take) (chunk 20) =
     Some (fill_header 4 (set_slot (clear_slot all_taken 4) 4))"
proof -
  have X: "chunk 20 \<noteq> 0" using st0_cell(1) [of 20] by simp
  have "second_take = xmalloc (Suc (Suc (Suc (Suc 0)))) after_free 8192"
    unfolding second_take_def by (simp add: numeral_eq_Suc)
  also note dup_alloc [OF after_free_result(2) X after_free_result(3,4,5), of 0]
  finally have r: "second_take =
    Inr (slot_ptr 20 (chunk 20) 4,
         after_free\<lparr>hdrs := (hdrs after_free)(chunk 20 \<mapsto>
             fill_header 4 (set_slot (clear_slot all_taken 4) 4)),
           mem := (write_u32 (mem after_free) (slot_ptr 20 (chunk 20) 4 - 5)
                     (ucast (slot_ptr 20 (chunk 20) 4 - 5 - chunk 20)))
                  (slot_ptr 20 (chunk 20) 4 - 1 := 0)\<rparr>)" .
  show "second_take = Inr (slot_ptr 20 (chunk 20) 4, ret_state second_take)"
    unfolding r by simp
  show "g_Bucket_Stacks (ret_state second_take) 20 0 = chunk 20"
    "t_Favorite_Arenas (ret_state second_take) 20 = 0" "\<not> busy (ret_state second_take) 20 0"
    "hdrs (ret_state second_take) (chunk 20) =
       Some (fill_header 4 (set_slot (clear_slot all_taken 4) 4))"
    unfolding r using after_free_result(2,3,4) by simp_all
qed

section \<open>Class selection (C6)\<close>

text \<open>
  C6. For a request of at most 8192 bytes the class search of \<open>xmalloc\<close> ends at the
  smallest class whose size is at least the request, the assertion behind it holds and
  \<open>pop_bucket\<close> is called with that class; a request of exactly a class size uses that
  class, one byte more uses the next class; every request above 8192 goes to
  \<open>mmap_non_bucket\<close>.
\<close>

theorem class_selection:
  "(bytes \<le> 8192 \<longrightarrow>
      find_bucket bytes 0 < BUCKET_NUM \<and>
      bytes \<le> of_nat (c_Bucket_Sizes ! find_bucket bytes 0) \<and>
      (\<forall>c < find_bucket bytes 0. of_nat (c_Bucket_Sizes ! c) < bytes) \<and>
      xmalloc fuel s bytes = pop_bucket fuel s (find_bucket bytes 0)) \<and>
   (8192 < bytes \<longrightarrow> xmalloc fuel s bytes = mmap_non_bucket s bytes) \<and>
   (c < BUCKET_NUM \<longrightarrow> xmalloc fuel s (of_nat (c_Bucket_Sizes ! c)) = pop_bucket fuel s c) \<and>
   (c < 20 \<longrightarrow> xmalloc fuel s (of_nat (c_Bucket_Sizes ! c) + 1) = pop_bucket fuel s (c + 1))"
proof (intro conjI impI)
  assume le: "bytes \<le> 8192"
  let ?r = "find_bucket bytes 0"
  from find_bucket_inv [of 0 bytes]
  have r: "?r \<le> 20" "\<forall>j < ?r. of_nat (c_Bucket_Sizes ! j) < bytes"
    "?r < 20 \<longrightarrow> bytes \<le> of_nat (c_Bucket_Sizes ! ?r)"
    by simp_all
  show "?r < BUCKET_NUM" using r(1) by simp
  show fits: "bytes \<le> of_nat (c_Bucket_Sizes ! ?r)"
  proof (cases "?r < 20")
    case True with r(3) show ?thesis by simp
  next
    case False
    with r(1) have "?r = 20" by simp
    with le show ?thesis by (simp add: c_Bucket_Sizes_def)
  qed
  show "\<forall>c < ?r. of_nat (c_Bucket_Sizes ! c) < bytes" by (rule r(2))
  have "?r \<noteq> 0 \<Longrightarrow> of_nat (c_Bucket_Sizes ! (?r - 1)) < bytes"
    using r(2) by simp
  with fits le show "xmalloc fuel s bytes = pop_bucket fuel s ?r"
    by (simp add: xmalloc_def Let_def leD)
next
  assume "8192 < bytes"
  then show "xmalloc fuel s bytes = mmap_non_bucket s bytes"
    by (simp add: xmalloc_def)
next
  assume c: "c < BUCKET_NUM"
  then have "(of_nat (c_Bucket_Sizes ! c) :: size_t) \<le> 8192"
    by (rule cases21) (simp_all add: c_Bucket_Sizes_def)
  moreover have "c \<noteq> 0 \<Longrightarrow>
      (of_nat (c_Bucket_Sizes ! (c - 1)) :: size_t) < of_nat (c_Bucket_Sizes ! c)"
    using c by (rule cases21) (simp_all add: c_Bucket_Sizes_def)
  ultimately show "xmalloc fuel s (of_nat (c_Bucket_Sizes ! c)) = pop_bucket fuel s c"
    using c by (simp add: xmalloc_def find_bucket_class Let_def leD)
next
  assume c: "c < 20"
  then have c21: "c < 21" by simp
  have "(of_nat (c_Bucket_Sizes ! c) + 1 :: size_t) \<le> 8192 \<and>
        (of_nat (c_Bucket_Sizes ! c) + 1 :: size_t) \<le> of_nat (c_Bucket_Sizes ! (c + 1)) \<and>
        (of_nat (c_Bucket_Sizes ! c) :: size_t) < of_nat (c_Bucket_Sizes ! c) + 1"
    using c21 by (rule cases21) (use c in \<open>simp_all add: c_Bucket_Sizes_def\<close>)
  then show "xmalloc fuel s (of_nat (c_Bucket_Sizes ! c) + 1) = pop_bucket fuel s (c + 1)"
    using c by (simp add: xmalloc_def find_bucket_next Let_def leD)
qed

theorem class_selection_witness:
  "(100 :: size_t) \<le> 8192 \<and> (8192 :: size_t) < 8193 \<and> (8 :: nat) < BUCKET_NUM \<and> (8 :: nat) < 20 \<and>
   find_bucket 100 0 = 8 \<and>
   xmalloc 1 (boot 0x10000000) 100 = pop_bucket 1 (boot 0x10000000) 8 \<and>
   xmalloc 1 (boot 0x10000000) 8193 = mmap_non_bucket (boot 0x10000000) 8193 \<and>
   xmalloc 1 (boot 0x10000000) 128 = pop_bucket 1 (boot 0x10000000) 8 \<and>
   xmalloc 1 (boot 0x10000000) 129 = pop_bucket 1 (boot 0x10000000) 9"
proof -
  have f: "find_bucket 100 0 = 8"
    by (simp add: find_bucket.simps c_Bucket_Sizes_def)
  show ?thesis
    using class_selection [of 100 1 "boot 0x10000000" 8]
      class_selection [of 8193 1 "boot 0x10000000" 8]
    by (simp add: f c_Bucket_Sizes_def)
qed

section \<open>The size codec (C7)\<close>

text \<open>
  C7. For every class of the table, \<open>gen_header_size\<close> returns a byte for the class size,
  and \<open>parse_header_size\<close> of that byte is the class size again; the decoded value is
  \<open>2 ^ k\<close>, plus \<open>2 ^ (k - 1)\<close> when bit 7 of the byte is set, for \<open>k\<close> the low seven bits.
\<close>

theorem codec_roundtrip:
  assumes "c < BUCKET_NUM"
  shows "\<exists>b. gen_header_size (of_nat (c_Bucket_Sizes ! c)) = Inr b \<and>
             parse_header_size b = of_nat (c_Bucket_Sizes ! c) \<and>
             parse_header_size b =
               2 ^ unat (b AND 0x7F) + (if bit b 7 then 2 ^ (unat (b AND 0x7F) - 1) else 0)"
proof -
  have "\<exists>b. gen_header_size (of_nat (c_Bucket_Sizes ! c)) = Inr b \<and>
             parse_header_size b = of_nat (c_Bucket_Sizes ! c) \<and>
             0 < unat (b AND 0x7F) \<and> unat (b AND 0x7F) < 64"
    using assms
    by (rule cases21) (simp_all add: c_Bucket_Sizes_def gen_class parse_class)
  then show ?thesis
    using decoder_formula by blast
qed

theorem codec_roundtrip_witness:
  "(3 :: nat) < BUCKET_NUM \<and> gen_header_size 24 = Inr 0x84 \<and> parse_header_size 0x84 = 24 \<and>
   parse_header_size 0x84 = 2 ^ 4 + 2 ^ 3"
  using codec_roundtrip [of 3]
  by (simp add: c_Bucket_Sizes_def gen_class)

section \<open>The large path (C8)\<close>

text \<open>
  C8, as the code has it. For every request above 8192 bytes and at most \<open>2 ^ 64 - 4105\<close>
  (so that neither adding the nine bytes of metadata nor rounding up wraps around in
  \<open>size_t\<close>), \<open>mmap_non_bucket\<close> asks \<open>mmap\<close> for \<open>page_round (n + 9)\<close> bytes, a multiple
  of 4096 that is at least \<open>n + 9\<close> and less than a page more. Whenever \<open>mmap\<close> answers
  with a mapping \<open>p\<close>, neither \<open>NULL\<close> nor \<open>MAP_FAILED\<close>, the first eight bytes of the
  mapping hold that length, the byte at offset 8 is \<open>0xFF\<close>, and the pointer returned is
  \<open>p + 9\<close>. For 10000 bytes the stored length is 12288.
\<close>

theorem large_mapping_layout:
  assumes "8192 < sz" "sz \<le> 0xFFFFFFFFFFFFEFF7"
    "os_mmap (page_round (unat sz + 9)) s = (p, s1)" "p \<noteq> 0" "p \<noteq> MAP_FAILED"
  shows "\<exists>s'. mmap_non_bucket s sz = Inr (p + 9, s') \<and>
           mappings s' = (p, page_round (unat sz + 9)) # mappings s \<and>
           SMALL_PAGE dvd page_round (unat sz + 9) \<and>
           unat sz + 9 \<le> page_round (unat sz + 9) \<and>
           page_round (unat sz + 9) < unat sz + 9 + SMALL_PAGE \<and>
           unat (read_u64 (mem s') p) = page_round (unat sz + 9) \<and>
           mem s' (p + 8) = c_Non_Bucket_Flag \<and>
           (sz = 10000 \<longrightarrow> read_u64 (mem s') p = 12288)"
  using assms by (rule mmap_non_bucket_layout)

theorem large_mapping_layout_witness:
  "(8192 :: size_t) < 10000 \<and> (10000 :: size_t) \<le> 0xFFFFFFFFFFFFEFF7 \<and>
   fst (os_mmap (page_round (unat (10000 :: size_t) + 9)) (start 0x10000000)) = 0xAC000000 \<and>
   (0xAC000000 :: addr) \<noteq> 0 \<and> (0xAC000000 :: addr) \<noteq> MAP_FAILED \<and>
   ret_ptr (mmap_non_bucket (start 0x10000000) 10000) = 0xAC000009 \<and>
   mappings (ret_state (mmap_non_bucket (start 0x10000000) 10000)) =
     (0xAC000000, 12288) # mappings (start 0x10000000) \<and>
   mem (ret_state (mmap_non_bucket (start 0x10000000) 10000))
     (ret_ptr (mmap_non_bucket (start 0x10000000) 10000) - 1) = 0xFF \<and>
   read_u64 (mem (ret_state (mmap_non_bucket (start 0x10000000) 10000)))
     (ret_ptr (mmap_non_bucket (start 0x10000000) 10000) - 9) = 12288"
proof -
  let ?s = "start 0x10000000"
  have os: "brk ?s = 0xAC000000" "as_limit ?s = 0x800000000000"
    using st0_os by (simp_all add: st0_def)
  have r: "page_round (unat (10000 :: size_t) + 9) = 12288"
    by (simp add: page_round_def)
  have m: "fst (os_mmap (page_round (unat (10000 :: size_t) + 9)) ?s) = 0xAC000000"
    by (simp add: os_mmap_def os page_round_def)
  then obtain s1 where "os_mmap (page_round (unat (10000 :: size_t) + 9)) ?s = (0xAC000000, s1)"
    by (cases "os_mmap (page_round (unat (10000 :: size_t) + 9)) ?s") simp
  from large_mapping_layout [of 10000 ?s "0xAC000000" s1, OF _ _ this]
  obtain s' where s': "mmap_non_bucket ?s 10000 = Inr (0xAC000000 + 9, s')"
    "mappings s' = (0xAC000000, page_round (unat (10000 :: size_t) + 9)) # mappings ?s"
    "mem s' (0xAC000000 + 8) = 0xFF" "read_u64 (mem s') 0xAC000000 = 12288"
    by auto
  have r': "page_round 10009 = 12288"
    by (simp add: page_round_def)
  show ?thesis
    unfolding s'(1) ret_simps using m s'(2,3,4) by (simp add: r')
qed

text \<open>
  The claim as stated, for every request above 8192, fails where \<open>size_t\<close> wraps around:
  a request of \<open>2 ^ 64 - 1\<close> bytes is answered with a mapping of one page.
\<close>

theorem large_mapping_overflow:
  "(8192 :: size_t) < - 1 \<and>
   mappings (ret_state (mmap_non_bucket (start 0x10000000) (- 1))) =
     (brk (start 0x10000000), 4096) # mappings (start 0x10000000) \<and>
   ret_ptr (mmap_non_bucket (start 0x10000000) (- 1)) = brk (start 0x10000000) + 9 \<and>
   page_round (unat (- 1 :: size_t) + 9) = 18446744073709555712 \<and>
   \<not> unat (- 1 :: size_t) + 9 \<le> 4096"
proof -
  have os: "brk (start 0x10000000) = 0xAC000000" "as_limit (start 0x10000000) = 0x800000000000"
    using st0_os by (simp_all add: st0_def)
  have "(((- 1 + 9) div 4096 + (if (- 1 + 9 :: size_t) mod 4096 = 0 then 0 else 1)) * 4096 :: size_t) = 4096"
    by simp
  then show ?thesis
    by (simp add: mmap_non_bucket_def os_mmap_def os Let_def ret_state_def ret_ptr_def page_round_def
        unsigned_minus_1_eq_mask mask_eq_exp_minus_1)
qed

section \<open>The flag check of \<open>xrealloc\<close> (C10)\<close>

text \<open>
  C10. When the byte before a non-null pointer is neither \<open>0xFF\<close> nor below 8, \<open>xrealloc\<close>
  ends the process with the diagnostic that names the pointer and the flag, in the state it
  was called in: nothing has been allocated, copied or freed.
\<close>

theorem realloc_flag_error:
  assumes "prev \<noteq> 0" "mem s (prev - 1) \<noteq> c_Non_Bucket_Flag" "\<not> mem s (prev - 1) < of_nat ARENA_NUM"
  shows "xrealloc fuel s prev bytes = Inl (Realloc_flag_error prev (mem s (prev - 1)), s)"
  using assms by (simp add: xrealloc_def Let_def)

theorem realloc_flag_error_witness:
  "(0x10004E25 :: addr) \<noteq> 0 \<and> (0x2A :: 8 word) \<noteq> c_Non_Bucket_Flag \<and>
   \<not> (0x2A :: 8 word) < of_nat ARENA_NUM \<and>
   xrealloc 1 ((start 0x10000000)\<lparr>mem := (mem (start 0x10000000))(0x10004E24 := 0x2A)\<rparr>)
     0x10004E25 100 =
   Inl (Realloc_flag_error 0x10004E25 0x2A,
        (start 0x10000000)\<lparr>mem := (mem (start 0x10000000))(0x10004E24 := 0x2A)\<rparr>)"
  using realloc_flag_error
    [of "0x10004E25" "(start 0x10000000)\<lparr>mem := (mem (start 0x10000000))(0x10004E24 := 0x2A)\<rparr>"
        1 100]
  by simp

section \<open>Resizing a bucket allocation (C5)\<close>




section \<open>Resizing a large allocation (C4)\<close>

text \<open>
  C4. \<open>xrealloc\<close> compares the new size with the length stored in front of a large block,
  which counts the nine bytes of metadata, and not with the \<open>P - 9\<close> bytes of payload: a
  block of 10000 bytes has \<open>P = 12288\<close> and 12279 bytes of payload, and resized to 12285
  bytes it is returned unchanged.
\<close>

theorem resize_large_within_header:
  "ret_ptr (xmalloc 1 st0 10000) = brk st0 + 9 \<and>
   mem (ret_state (xmalloc 1 st0 10000)) (ret_ptr (xmalloc 1 st0 10000) - 1) = c_Non_Bucket_Flag \<and>
   read_u64 (mem (ret_state (xmalloc 1 st0 10000))) (ret_ptr (xmalloc 1 st0 10000) - 9) = 12288 \<and>
   (12288 - 9 :: nat) < 12285 \<and>
   xrealloc 1 (ret_state (xmalloc 1 st0 10000)) (ret_ptr (xmalloc 1 st0 10000)) 12285 =
     Inr (ret_ptr (xmalloc 1 st0 10000), ret_state (xmalloc 1 st0 10000))"
proof -
  from st0_alloc_10000 [of 1] obtain s' where r: "xmalloc 1 st0 10000 = Inr (brk st0 + 9, s')"
    "mem s' (brk st0 + 8) = c_Non_Bucket_Flag" "read_u64 (mem s') (brk st0) = 12288"
    by blast
  have e: "brk st0 + 9 - 1 = brk st0 + 8" "brk st0 + 9 - 9 = brk st0"
    by simp_all
  have nz: "brk st0 + 9 \<noteq> 0"
    using chunk_ptr_nonzero [OF st0_brk_bound] by simp
  have "xrealloc 1 s' (brk st0 + 9) 12285 = Inr (brk st0 + 9, s')"
    using xrealloc_large [of "brk st0 + 9" s' 1 12285] nz r(2,3)
    by (simp only: e) simp
  then show ?thesis
    unfolding r(1) ret_simps e using r(2,3) by simp
qed

section \<open>The cursor \<open>last_offset\<close> (C9)\<close>

text \<open>
  C9, as the code has it. A \<open>pop_bucket\<close> that returns leaves, in the header of the chunk it
  took the slot from, \<open>last_offset\<close> equal to the index of that slot. \<open>xfree\<close> leaves the
  \<open>last_offset\<close> of every header as it was. The next \<open>pop_bucket\<close> looks at slot
  \<open>(last_offset + 1) mod slot_count\<close> of the first chunk first: if that slot is free, it is
  the one taken.
\<close>

theorem last_offset_cursor:
  "(pop_bucket fuel s c = Inr (p, s') \<longrightarrow>
      (\<exists>header h'. hdrs s' header = Some h' \<and> p = slot_ptr c header (last_offset h'))) \<and>
   (xfree s q = Inr s'' \<longrightarrow> hdrs s x = Some h \<longrightarrow>
      (\<exists>h'. hdrs s'' x = Some h' \<and> last_offset h' = last_offset h)) \<and>
   (c < BUCKET_NUM \<longrightarrow>
    g_Bucket_Stacks s c (unat (t_Favorite_Arenas (lock_favorite s c) c)) = header \<longrightarrow>
    header \<noteq> 0 \<longrightarrow> hdrs s header = Some h0 \<longrightarrow>
    (last_offset h0 + 1) mod bitmap_size_of c \<noteq> last_offset h0 \<longrightarrow>
    slot_free h0 ((last_offset h0 + 1) mod bitmap_size_of c) \<longrightarrow>
      (\<exists>s1 h1. pop_bucket (Suc k) s c =
                  Inr (slot_ptr c header ((last_offset h0 + 1) mod bitmap_size_of c), s1) \<and>
               hdrs s1 header = Some h1 \<and>
               last_offset h1 = (last_offset h0 + 1) mod bitmap_size_of c))"
  using pop_bucket_result [of fuel s c p s'] xfree_last_offset [of s q s'' x h]
    pop_bucket_cursor [of c s header h0 k]
  by blast

theorem last_offset_cursor_witness:
  "pop_bucket 1 st0 20 = Inr (slot_ptr 20 (chunk 20) 1, first_claim st0 20 (chunk 20)) \<and>
   (\<exists>header h'. hdrs (first_claim st0 20 (chunk 20)) header = Some h' \<and>
      slot_ptr 20 (chunk 20) 1 = slot_ptr 20 header (last_offset h')) \<and>
   xfree (first_claim st0 20 (chunk 20)) (slot_ptr 20 (chunk 20) 1) =
     Inr (first_claim st0 20 (chunk 20)) \<and>
   (20 :: nat) < BUCKET_NUM \<and>
   g_Bucket_Stacks st0 20 (unat (t_Favorite_Arenas (lock_favorite st0 20) 20)) = chunk 20 \<and>
   chunk 20 \<noteq> 0 \<and>
   hdrs st0 (chunk 20) = Some (zero_header\<lparr>size_byte := class_byte 20\<rparr>) \<and>
   slot_free (zero_header\<lparr>size_byte := class_byte 20\<rparr>) 1 \<and>
   last_offset (the (hdrs (first_claim st0 20 (chunk 20)) (chunk 20))) = 1"
proof -
  have pop: "pop_bucket 1 st0 20 = Inr (slot_ptr 20 (chunk 20) 1, first_claim st0 20 (chunk 20))"
    using pop_fresh [of 20 st0 "chunk 20" 0] st0_cell [of 20] by simp
  have free: "xfree (first_claim st0 20 (chunk 20)) (slot_ptr 20 (chunk 20) 1) =
      Inr (first_claim st0 20 (chunk 20))"
    using slot1_nonzero by (simp add: scenario_defs)
  have "\<exists>header h'. hdrs (first_claim st0 20 (chunk 20)) header = Some h' \<and>
      slot_ptr 20 (chunk 20) 1 = slot_ptr 20 header (last_offset h')"
    using last_offset_cursor
      [of 1 st0 20 "slot_ptr 20 (chunk 20) 1" "first_claim st0 20 (chunk 20)"] pop
    by simp
  moreover have "g_Bucket_Stacks st0 20 (unat (t_Favorite_Arenas (lock_favorite st0 20) 20)) =
      chunk 20"
    using st0_cell [of 20] by (simp add: lock_favorite_def)
  moreover have "slot_free (zero_header\<lparr>size_byte := class_byte 20\<rparr>) 1"
    "last_offset (the (hdrs (first_claim st0 20 (chunk 20)) (chunk 20))) = 1"
    by (simp_all add: scenario_defs)
  ultimately show ?thesis
    using pop free st0_cell [of 20] by simp
qed

text \<open>
  The claim as stated also has \<open>last_offset\<close> follow a free: after slots 1 and 2 of a chunk
  have been taken and slot 1 is freed, \<open>last_offset\<close> is still 2.
\<close>

theorem free_keeps_last_offset:
  "slot_of 20 (chunk 20) (ret_ptr (alloc_run 1 st0 8192 1)) = 1 \<and>
   ret_ptr (alloc_run 1 st0 8192 2) = slot_ptr 20 (chunk 20) 2 \<and>
   xfree (ret_state (alloc_run 1 st0 8192 2)) (ret_ptr (alloc_run 1 st0 8192 1)) =
     Inr (ret_state (alloc_run 1 st0 8192 2)) \<and>
   last_offset (the (hdrs (ret_state (alloc_run 1 st0 8192 2)) (chunk 20))) = 2"
proof -
  have one: "(1 :: nat) = Suc 0" and two: "(2 :: nat) = Suc (Suc 0)"
    by simp_all
  show ?thesis
    unfolding one two st0_first_8192 st0_second_8192 ret_simps
    using slot1_nonzero st0_cell [of 20]
    by (simp add: scenario_defs)
qed

section \<open>The bit cleared by \<open>xfree\<close> (C1)\<close>

text \<open>
  C1. \<open>push_bucket\<close> adds \<open>sizeof(page_header)\<close> to the distance of the slot from the chunk
  where \<open>pop_bucket\<close> subtracts it. For the first pointer allocated from the chunk of class
  8192, which is slot 1, the index it computes is 5: the free clears bit 5 and leaves the
  state, with bit 1 still set, exactly as it was.
\<close>

theorem free_clears_other_bit:
  "alloc_run 1 st0 8192 1 = Inr (slot_ptr 20 (chunk 20) 1, first_claim st0 20 (chunk 20)) \<and>
   slot_of 20 (chunk 20) (slot_ptr 20 (chunk 20) 1) = 1 \<and>
   push_offset 20 (chunk 20) (slot_ptr 20 (chunk 20) 1 - 5) = 5 \<and>
   xfree (first_claim st0 20 (chunk 20)) (slot_ptr 20 (chunk 20) 1) =
     Inr (first_claim st0 20 (chunk 20)) \<and>
   \<not> slot_free (the (hdrs (first_claim st0 20 (chunk 20)) (chunk 20))) 1"
proof -
  have "alloc_run 1 st0 8192 1 = Inr (slot_ptr 20 (chunk 20) 1, first_claim st0 20 (chunk 20))"
    using st0_first_8192 [of 0] by simp
  moreover have "slot_of 20 (chunk 20) (slot_ptr 20 (chunk 20) 1) = 1"
    "push_offset 20 (chunk 20) (slot_ptr 20 (chunk 20) 1 - 5) = 5"
    "\<not> slot_free (the (hdrs (first_claim st0 20 (chunk 20)) (chunk 20))) 1"
    by (simp_all add: scenario_defs)
  moreover have "xfree (first_claim st0 20 (chunk 20)) (slot_ptr 20 (chunk 20) 1) =
     Inr (first_claim st0 20 (chunk 20))"
    using slot1_nonzero by (simp add: scenario_defs)
  ultimately show ?thesis by simp
qed

section \<open>A block handed out twice (C2)\<close>

text \<open>
  C2. \<open>push_bucket\<close> clears the bit of another slot than the one freed, so a slot that is
  still in use is handed out again. From the start state 8184 calls \<open>xmalloc(8192)\<close> take
  every slot of the chunk of class 8192: the fourth of them returns \<open>0x8C00CE39\<close>, slot 4,
  and the last one \<open>0x8C004E25\<close>, slot 0. \<open>xfree\<close> of that last pointer, the only free of
  the run, returns, and the next \<open>xmalloc(8192)\<close> returns \<open>0x8C00CE39\<close> again: the block
  of the fourth call, which has not been freed.
\<close>

theorem live_pointer_returned_twice:
  "alloc_run 4 st0 8192 4 = Inr (0x8C00CE39, ret_state (alloc_run 4 st0 8192 4)) \<and>
   full_run = Inr (0x8C004E25, ret_state full_run) \<and>
   xfree (ret_state full_run) 0x8C004E25 = Inr after_free \<and>
   second_take = Inr (0x8C00CE39, ret_state second_take)"
proof -
  have "ret_ptr full_run = 0x8C004E25"
    by (subst full_run_result(1)) (simp add: slot_ptrs_20)
  with fourth_alloc full_run_result(1) after_free_result(1) second_take_result(1)
  show ?thesis
    by (simp add: slot_ptrs_20)
qed

section \<open>The skip of the scan (C3)\<close>

text \<open>
  C3. The skip \<open>offset += 64\<close> of the scan is not reduced modulo the number of slots and
  can pass \<open>last_offset\<close>. After the run above every slot of the chunk of class 8192 is
  taken and \<open>last_offset\<close> is 4: from offset 0 the scan goes on at offset 64, past 4, and
  the next \<open>xmalloc(8192)\<close> has not returned after any number of iterations.
\<close>

theorem scan_skips_cursor:
  "second_take = Inr (slot_ptr 20 (chunk 20) 4, ret_state second_take) \<and>
   last_offset (the (hdrs (ret_state second_take) (chunk 20))) = 4 \<and>
   scan_slots (Suc n) (the (hdrs (ret_state second_take) (chunk 20))) (bitmap_size_of 20) 0 =
     scan_slots n (the (hdrs (ret_state second_take) (chunk 20))) (bitmap_size_of 20) 64 \<and>
   xmalloc fuel (ret_state second_take) 8192 = Inl (Out_of_fuel, ret_state second_take)"
proof -
  let ?h = "fill_header 4 (set_slot (clear_slot all_taken 4) 4)"
  have X: "chunk 20 \<noteq> 0" using st0_cell(1) [of 20] by simp
  have lo: "last_offset ?h = 4" "bitmap ?h = set_slot (clear_slot all_taken 4) 4"
    by (simp_all add: fill_header_def)
  have "scan_slots (Suc n) ?h (bitmap_size_of 20) 0 = scan_slots n ?h (bitmap_size_of 20) (0 + 64)"
    by (rule scan_skip) (simp_all add: lo taken_all(3))
  moreover note alloc_diverges [OF second_take_result(2) X second_take_result(3,4,5), of fuel]
  ultimately show ?thesis
    using second_take_result(1)
    by (simp add: second_take_result(5) lo(1) del: scan_slots.simps)
qed

end
